theory Spec2Isabelle
  imports Main "HOL-Library.Word"
begin

unbundle bit_operations_syntax

section \<open>Bytes, digests and hexadecimal strings\<close>

text \<open>
  Go's \<^verbatim>\<open>[]byte\<close> is a list of 8-bit words. Go's \<^verbatim>\<open>int\<close> is modelled by the
  unbounded integers: every integer of the chunker is a length, a chunk index below the
  chunk count, or an offset \<^verbatim>\<open>index * 1 MiB\<close> into a file, and none of them can reach
  \<open>2^63\<close> for data the program can hold.

  \<^verbatim>\<open>crypto/sha256\<close> is a library outside the repository. The functions that hash take
  \<^verbatim>\<open>sha256.Sum256\<close> as their first argument, so that every theorem holds for any digest
  function; \<^verbatim>\<open>hex.EncodeToString\<close> is written out.
\<close>

type_synonym byte = "8 word"
type_synonym bytes = "byte list"
type_synonym digest = "bytes \<Rightarrow> bytes"

definition hexdigit :: "nat \<Rightarrow> char" where
  "hexdigit n = ''0123456789abcdef'' ! n"

definition EncodeToString :: "bytes \<Rightarrow> string" where
  "EncodeToString bs =
     concat (map (\<lambda>b. [hexdigit (unat b div 16), hexdigit (unat b mod 16)]) bs)"

section \<open>pkg/chunker: data model\<close>

definition ChunkSize :: nat where
  "ChunkSize = 1024 * 1024"

definition DataShards :: nat where
  "DataShards = 4"

definition ParityShards :: nat where
  "ParityShards = 2"

definition TotalShards :: nat where
  "TotalShards = DataShards + ParityShards"

record Chunk =
  Index :: int
  Data :: bytes
  Hash :: string
  Size :: int

text \<open>
  Every \<^verbatim>\<open>fmt.Errorf\<close> of the package is a constructor that keeps the numbers the
  message prints and the library error it wraps (\<open>rs_error\<close>: the errors of the
  Reed-Solomon library); \<open>Panic\<close> is a run-time panic of the Go runtime.
\<close>

datatype rs_error =
    ErrInvShardNum
  | ErrMaxShardNum
  | ErrShortData
  | ErrTooFewShards
  | ErrShardNoData
  | ErrShardSize
  | ErrReconstructRequired
  | ErrSingular

datatype chunker_error =
    OpenFailed
  | ReadFailed int
  | SizeMismatch int int
  | EncoderFailed rs_error
  | SplitFailed rs_error
  | EncodeFailed rs_error
  | InsufficientShards int int
  | InvalidDataSize
  | MixedChunks
  | ShardVerificationFailed int
  | InvalidShardIndex int
  | DuplicateShardIndex int
  | ReconstructFailed rs_error
  | VerifyFailed rs_error
  | VerificationMismatch
  | JoinFailed rs_error
  | CreateFailed
  | OutOfBounds int int
  | WriteFailed int
  | IncompleteAssembly int int
  | Panic

text \<open>
  A shard's \<^verbatim>\<open>Data\<close> is a slice that may be \<^verbatim>\<open>nil\<close> (\<open>None\<close>): ReconstructChunk tells a
  \<^verbatim>\<open>nil\<close> slot from a filled one. The fields \<^verbatim>\<open>Data\<close>, \<^verbatim>\<open>Hash\<close> and \<^verbatim>\<open>Size\<close> carry
  a suffix, the names being taken by \<open>Chunk\<close>.
\<close>

record Shard =
  ChunkIndex :: int
  ShardIndex :: int
  Data_shard :: "bytes option"
  Hash_shard :: string
  Size_shard :: int

definition bytes_of :: "bytes option \<Rightarrow> bytes" where
  "bytes_of s = (case s of None \<Rightarrow> [] | Some bs \<Rightarrow> bs)"

record ChunkResult =
  Chunk :: Chunk
  Err :: "chunker_error option"

definition zeroChunk :: Chunk where
  "zeroChunk = \<lparr>Index = 0, Data = [], Hash = [], Size = 0\<rparr>"

section \<open>StreamChunkFile\<close>

text \<open>
  The file behind \<^verbatim>\<open>filePath\<close>: \<open>Missing\<close> cannot be opened; \<open>Source bs faulty\<close> opens
  and delivers the bytes \<open>bs\<close>, followed by end-of-file, or by a read error when
  \<open>faulty\<close> holds. A byte source of total length \<open>N\<close> is \<open>Source bs False\<close> with
  \<open>length bs = N\<close>.
\<close>

datatype source = Missing | Source bytes bool

datatype read_error = EOF | ErrUnexpectedEOF | ReadError

text \<open>
  \<^verbatim>\<open>io.ReadFull(file, buffer)\<close> on the unread bytes \<open>rest\<close>: the number of bytes read and
  the error. A full buffer is no error; fewer bytes are \<open>ErrUnexpectedEOF\<close>, none is
  \<open>EOF\<close>, and a failing read reports its own error.
\<close>

definition ReadFull :: "bytes \<Rightarrow> bool \<Rightarrow> nat \<Rightarrow> nat \<times> read_error option" where
  "ReadFull rest faulty len =
     (if len \<le> length rest then (len, None)
      else if faulty then (length rest, Some ReadError)
      else if rest = [] then (0, Some EOF)
      else (length rest, Some ErrUnexpectedEOF))"

text \<open>
  The read loop of the goroutine. The result is the sequence of values sent on the
  channel before it is closed; the channel's buffer of four only overlaps producer and
  consumer and does not change that sequence.
\<close>

function stream_loop :: "digest \<Rightarrow> bool \<Rightarrow> bytes \<Rightarrow> int \<Rightarrow> ChunkResult list" where
  "stream_loop Sum256 faulty rest index =
     (let n = fst (ReadFull rest faulty ChunkSize);
          err = snd (ReadFull rest faulty ChunkSize)
      in if err = Some EOF then []
         else
           let err' = (if err = Some ErrUnexpectedEOF then None else err)
           in if err' \<noteq> None
              then [\<lparr>Chunk = zeroChunk, Err = Some (ReadFailed index)\<rparr>]
              else
                let chunkData = take n rest;
                    chunk = \<lparr>Index = index, Data = chunkData,
                             Hash = EncodeToString (Sum256 chunkData), Size = int n\<rparr>
                in \<lparr>Chunk = chunk, Err = None\<rparr> #
                   (if n < ChunkSize then []
                    else stream_loop Sum256 faulty (drop n rest) (index + 1)))"
  by pat_completeness auto
termination
  by (relation "measure (\<lambda>(S, f, rest, i). length rest)")
     (auto simp: ReadFull_def ChunkSize_def split: if_splits)

definition StreamChunkFile :: "digest \<Rightarrow> source \<Rightarrow> ChunkResult list" where
  "StreamChunkFile Sum256 src =
     (case src of
        Missing \<Rightarrow> [\<lparr>Chunk = zeroChunk, Err = Some OpenFailed\<rparr>]
      | Source bs faulty \<Rightarrow> stream_loop Sum256 faulty bs 0)"

declare stream_loop.simps [simp del]

section \<open>AssembleChunks\<close>

text \<open>
  The output path: \<open>Unwritable\<close> cannot be created; \<open>Writable cap\<close> is created empty
  (\<^verbatim>\<open>os.Create\<close> truncates) and takes writes up to \<open>cap\<close> bytes, any write for
  \<open>None\<close>.

  \<^verbatim>\<open>output.WriteAt(data, offset)\<close> on the file contents \<open>f\<close>: a negative offset is an
  error, no bytes are no write at all, and a write past the end of the file fills the
  gap with zero bytes.
\<close>

datatype sink = Unwritable | Writable "nat option"

definition WriteAt :: "nat option \<Rightarrow> bytes \<Rightarrow> bytes \<Rightarrow> int \<Rightarrow> bytes option" where
  "WriteAt cap f b off =
     (if off < 0 then None
      else if b = [] then Some f
      else if (case cap of None \<Rightarrow> False | Some c \<Rightarrow> c < nat off + length b) then None
      else Some (take (nat off) (f @ replicate (nat off - length f) 0) @ b
                 @ drop (nat off + length b) f))"

text \<open>
  The loop over the channel, on the state \<open>(output, received, uniqueCount)\<close>. A failure
  carries the bytes the output file is left with.
\<close>

fun assemble_loop ::
  "nat option \<Rightarrow> int \<Rightarrow> Chunk list \<Rightarrow> bytes \<times> bool list \<times> int
     \<Rightarrow> (chunker_error \<times> bytes) + (bytes \<times> bool list \<times> int)" where
  "assemble_loop cap totalChunks [] st = Inr st"
| "assemble_loop cap totalChunks (chunk # rest) (output, received, uniqueCount) =
     (if Index chunk < 0 \<or> Index chunk \<ge> totalChunks
      then Inl (OutOfBounds (Index chunk) (totalChunks - 1), output)
      else if received ! nat (Index chunk)
      then assemble_loop cap totalChunks rest (output, received, uniqueCount)
      else
        case WriteAt cap output (Data chunk) (Index chunk * int ChunkSize) of
          None \<Rightarrow> Inl (WriteFailed (Index chunk), output)
        | Some output' \<Rightarrow>
            assemble_loop cap totalChunks rest
              (output', received[nat (Index chunk) := True], uniqueCount + 1))"

text \<open>
  \<^verbatim>\<open>make([]bool, totalChunks)\<close> panics for a negative length and for a length above the
  allocation limit of the Go runtime, \<open>maxAlloc\<close> bytes (\<open>2 ^ 48\<close> on 64-bit Linux), which
  is a parameter; it does so after the output file has been created and before the
  channel is read. The result is the error with the bytes left in the output file, or
  the bytes of the assembled file.
\<close>

definition AssembleChunks ::
  "int \<Rightarrow> sink \<Rightarrow> Chunk list \<Rightarrow> int \<Rightarrow> (chunker_error \<times> bytes) + bytes" where
  "AssembleChunks maxAlloc outputPath chunkStream totalChunks =
     (case outputPath of
        Unwritable \<Rightarrow> Inl (CreateFailed, [])
      | Writable cap \<Rightarrow>
          if totalChunks < 0 \<or> totalChunks > maxAlloc then Inl (Panic, [])
          else
            case assemble_loop cap totalChunks chunkStream
                   ([], replicate (nat totalChunks) False, 0) of
              Inl e \<Rightarrow> Inl e
            | Inr (output, received, uniqueCount) \<Rightarrow>
                if uniqueCount \<noteq> totalChunks
                then Inl (IncompleteAssembly totalChunks uniqueCount, output)
                else Inr output)"

section \<open>ShardChunk and ReconstructChunk\<close>

text \<open>
  \<^verbatim>\<open>github.com/klauspost/reedsolomon\<close> is a library outside the repository. Its
  constructor \<^verbatim>\<open>reedsolomon.New\<close> is a parameter of the two functions, and the encoder
  it returns is a record of the five methods the repository calls. A \<^verbatim>\<open>[][]byte\<close> is
  a list of slices, each of which may be \<^verbatim>\<open>nil\<close>; \<open>Encode\<close> and \<open>Reconstruct\<close>, which
  write into their argument, return the shards as they leave them.
\<close>

type_synonym shards = "bytes option list"

record encoder =
  Split :: "bytes \<Rightarrow> rs_error + shards"
  Encode :: "shards \<Rightarrow> rs_error + shards"
  Reconstruct :: "shards \<Rightarrow> rs_error + shards"
  Verify :: "shards \<Rightarrow> rs_error + bool"
  Join :: "shards \<Rightarrow> int \<Rightarrow> rs_error + bytes"

type_synonym new_encoder = "nat \<Rightarrow> nat \<Rightarrow> rs_error + encoder"

definition VerifyChunk :: "digest \<Rightarrow> bytes \<Rightarrow> string \<Rightarrow> bool" where
  "VerifyChunk Sum256 d expectedHash \<longleftrightarrow> EncodeToString (Sum256 d) = expectedHash"

definition VerifyShard :: "digest \<Rightarrow> bytes option \<Rightarrow> string \<Rightarrow> bool" where
  "VerifyShard Sum256 d expectedHash \<longleftrightarrow>
     EncodeToString (Sum256 (bytes_of d)) = expectedHash"

text \<open>
  The loop that builds the shard list reads \<^verbatim>\<open>shards[i]\<close> for \<open>i < TotalShards\<close>, which
  panics on a shorter slice.
\<close>

definition ShardChunk ::
  "digest \<Rightarrow> new_encoder \<Rightarrow> Chunk \<Rightarrow> bytes \<Rightarrow> chunker_error + Shard list" where
  "ShardChunk Sum256 New chunk encryptedData =
     (if int (length encryptedData) \<noteq> Size chunk
      then Inl (SizeMismatch (Size chunk) (int (length encryptedData)))
      else
        case New DataShards ParityShards of
          Inl e \<Rightarrow> Inl (EncoderFailed e)
        | Inr enc \<Rightarrow>
            (case Split enc encryptedData of
               Inl e \<Rightarrow> Inl (SplitFailed e)
             | Inr split \<Rightarrow>
                 (case Encode enc split of
                    Inl e \<Rightarrow> Inl (EncodeFailed e)
                  | Inr shards \<Rightarrow>
                      if length shards < TotalShards then Inl Panic
                      else
                        Inr (map (\<lambda>i.
                               \<lparr>ChunkIndex = Index chunk,
                                ShardIndex = int i,
                                Data_shard = shards ! i,
                                Hash_shard = EncodeToString (Sum256 (bytes_of (shards ! i))),
                                Size_shard = int (length (bytes_of (shards ! i)))\<rparr>)
                             [0..<TotalShards]))))"

text \<open>
  The first loop of ReconstructChunk: for each shard in turn, its chunk index is compared
  with the first shard's, then its data is verified against its hash.
\<close>

fun verify_loop :: "digest \<Rightarrow> int \<Rightarrow> Shard list \<Rightarrow> chunker_error option" where
  "verify_loop Sum256 expectedChunk [] = None"
| "verify_loop Sum256 expectedChunk (s # rest) =
     (if ChunkIndex s \<noteq> expectedChunk then Some MixedChunks
      else if \<not> VerifyShard Sum256 (Data_shard s) (Hash_shard s)
      then Some (ShardVerificationFailed (ShardIndex s))
      else verify_loop Sum256 expectedChunk rest)"

text \<open>The second loop: the shards are put into the slots of \<open>shardData\<close>.\<close>

fun fill_loop :: "Shard list \<Rightarrow> shards \<Rightarrow> chunker_error + shards" where
  "fill_loop [] shardData = Inr shardData"
| "fill_loop (shard # rest) shardData =
     (if ShardIndex shard < 0 \<or> ShardIndex shard \<ge> int TotalShards
      then Inl (InvalidShardIndex (ShardIndex shard))
      else if shardData ! nat (ShardIndex shard) \<noteq> None
      then Inl (DuplicateShardIndex (ShardIndex shard))
      else fill_loop rest (shardData[nat (ShardIndex shard) := Data_shard shard]))"

definition ReconstructChunk ::
  "digest \<Rightarrow> new_encoder \<Rightarrow> Shard list \<Rightarrow> int \<Rightarrow> chunker_error + bytes" where
  "ReconstructChunk Sum256 New shards dataSize =
     (if length shards < DataShards
      then Inl (InsufficientShards (int DataShards) (int (length shards)))
      else if dataSize \<le> 0 then Inl InvalidDataSize
      else
        case verify_loop Sum256 (ChunkIndex (hd shards)) shards of
          Some e \<Rightarrow> Inl e
        | None \<Rightarrow>
            (case New DataShards ParityShards of
               Inl e \<Rightarrow> Inl (EncoderFailed e)
             | Inr enc \<Rightarrow>
                 (case fill_loop shards (replicate TotalShards None) of
                    Inl e \<Rightarrow> Inl e
                  | Inr shardData \<Rightarrow>
                      (case Reconstruct enc shardData of
                         Inl e \<Rightarrow> Inl (ReconstructFailed e)
                       | Inr rebuilt \<Rightarrow>
                           (case Verify enc rebuilt of
                              Inl e \<Rightarrow> Inl (VerifyFailed e)
                            | Inr ok \<Rightarrow>
                                if \<not> ok then Inl VerificationMismatch
                                else
                                  (case Join enc rebuilt dataSize of
                                     Inl e \<Rightarrow> Inl (JoinFailed e)
                                   | Inr buf \<Rightarrow> Inr buf))))))"

section \<open>A Reed-Solomon encoder\<close>

text \<open>
  Modelled from the spec: the encoder that \<^verbatim>\<open>reedsolomon.New(4, 2)\<close> returns. The
  library is not among the repository's files; the spec describes it as a Reed-Solomon
  codec over a finite field that works shard-wise on equal-length byte partitions of the
  buffer, pads as the code needs and strips the padding on reconstruction, solves for the
  missing shard slots, and can be written anew as a Vandermonde-matrix coder over
  \<open>GF(2\<^sup>8)\<close>. This section is such a coder: the field with the polynomial
  \<open>x\<^sup>8 + x\<^sup>4 + x\<^sup>3 + x\<^sup>2 + 1\<close>, the encoding matrix (a Vandermonde matrix multiplied by
  the inverse of its top square, so that the data shards are the rows of the identity),
  and the five operations the repository calls.
\<close>

subsection \<open>The field\<close>

definition xtime :: "byte \<Rightarrow> byte" where
  "xtime a = (if bit a 7 then push_bit 1 a XOR 0x1D else push_bit 1 a)"

fun gmul :: "nat \<Rightarrow> byte \<Rightarrow> byte \<Rightarrow> byte" where
  "gmul 0 a b = 0"
| "gmul (Suc n) a b = (if bit a 0 then b else 0) XOR gmul n (drop_bit 1 a) (xtime b)"

definition galMultiply :: "byte \<Rightarrow> byte \<Rightarrow> byte" where
  "galMultiply a b = gmul 8 a b"

fun galExp :: "byte \<Rightarrow> nat \<Rightarrow> byte" where
  "galExp a 0 = 1"
| "galExp a (Suc n) = galMultiply a (galExp a n)"

text \<open>The inverse of a non-zero element is its 254th power.\<close>

definition galOneOver :: "byte \<Rightarrow> byte" where
  "galOneOver a =
     (let a2 = galMultiply a a;
          a4 = galMultiply a2 a2;
          a8 = galMultiply a4 a4;
          a16 = galMultiply a8 a8;
          a32 = galMultiply a16 a16;
          a64 = galMultiply a32 a32;
          a128 = galMultiply a64 a64
      in galMultiply a2 (galMultiply a4 (galMultiply a8 (galMultiply a16
           (galMultiply a32 (galMultiply a64 a128))))))"

subsection \<open>Matrices\<close>

type_synonym matrix = "byte list list"

definition dot :: "byte list \<Rightarrow> byte list \<Rightarrow> byte" where
  "dot row col = foldr (XOR) (map2 galMultiply row col) 0"

definition identityMatrix :: "nat \<Rightarrow> matrix" where
  "identityMatrix n = map (\<lambda>r. map (\<lambda>c. if r = c then 1 else 0) [0..<n]) [0..<n]"

definition vandermonde_row :: "nat \<Rightarrow> byte \<Rightarrow> byte list" where
  "vandermonde_row cols r = map (galExp r) [0..<cols]"

definition vandermonde :: "nat \<Rightarrow> nat \<Rightarrow> matrix" where
  "vandermonde rows cols = map (vandermonde_row cols) (map of_nat [0..<rows])"

definition Multiply :: "matrix \<Rightarrow> matrix \<Rightarrow> matrix" where
  "Multiply m right = map (\<lambda>row. map (\<lambda>c. dot row (map (\<lambda>r. r ! c) right)) [0..<length (hd right)]) m"

definition find_pivot :: "nat \<Rightarrow> matrix \<Rightarrow> nat option" where
  "find_pivot r m = List.find (\<lambda>i. m ! i ! r \<noteq> 0) [r..<length m]"

text \<open>
  Gauss-Jordan elimination on the columns \<open>r\<close> of a list: the row \<open>p\<close> with a non-zero
  entry in column \<open>r\<close> is swapped into place and scaled to 1, and its multiples are
  added to all other rows.
\<close>

definition eliminate :: "nat \<Rightarrow> nat \<Rightarrow> matrix \<Rightarrow> matrix" where
  "eliminate r p m =
     (let swapped = m[r := m ! p, p := m ! r];
          pivot = (if swapped ! r ! r = 1 then swapped ! r
                   else map (galMultiply (galOneOver (swapped ! r ! r))) (swapped ! r))
      in map (\<lambda>i. if i = r then pivot
                   else map2 (XOR) (swapped ! i) (map (galMultiply (swapped ! i ! r)) pivot))
           [0..<length m])"

fun gaussianElimination :: "nat list \<Rightarrow> matrix \<Rightarrow> matrix option" where
  "gaussianElimination [] m = Some m"
| "gaussianElimination (r # rs) m =
     (case find_pivot r m of
        None \<Rightarrow> None
      | Some p \<Rightarrow> gaussianElimination rs (eliminate r p m))"

definition Invert :: "matrix \<Rightarrow> matrix option" where
  "Invert m =
     (let n = length m
      in map_option (map (drop n))
           (gaussianElimination [0..<n] (map2 (@) m (identityMatrix n))))"

definition buildMatrix :: "nat \<Rightarrow> nat \<Rightarrow> matrix option" where
  "buildMatrix dataShards totalShards =
     (let vm = vandermonde totalShards dataShards
      in map_option (Multiply vm) (Invert (take dataShards vm)))"


subsection \<open>The operations on shards\<close>

text \<open>
  A shard is present when it has bytes: a \<^verbatim>\<open>nil\<close> slot and an empty slice are both
  missing. \<open>codeSomeShards\<close> multiplies the given matrix rows with the input shards,
  byte position by byte position.
\<close>

definition shardSize :: "shards \<Rightarrow> nat" where
  "shardSize shards =
     (case filter (\<lambda>s. s \<noteq> []) (map bytes_of shards) of [] \<Rightarrow> 0 | s # _ \<Rightarrow> length s)"

definition checkShards :: "shards \<Rightarrow> bool \<Rightarrow> rs_error option" where
  "checkShards shards nilok =
     (let sz = shardSize shards
      in if sz = 0 then Some ErrShardNoData
         else if \<exists>shard \<in> set shards.
                   length (bytes_of shard) \<noteq> sz
                 \<and> (length (bytes_of shard) \<noteq> 0 \<or> \<not> nilok)
         then Some ErrShardSize
         else None)"

definition codeSomeShards :: "matrix \<Rightarrow> bytes list \<Rightarrow> nat \<Rightarrow> bytes list" where
  "codeSomeShards matrixRows inputs byteCount =
     map (\<lambda>row. map (\<lambda>pos. dot row (map (\<lambda>inp. inp ! pos) inputs)) [0..<byteCount])
       matrixRows"

definition rs_Split :: "nat \<Rightarrow> nat \<Rightarrow> bytes \<Rightarrow> rs_error + shards" where
  "rs_Split dataShards totalShards buf =
     (if buf = [] then Inl ErrShortData
      else
        let perShard = (length buf + dataShards - 1) div dataShards;
            padded = buf @ replicate (totalShards * perShard - length buf) 0
        in Inr (map (\<lambda>i. Some (take perShard (drop (i * perShard) padded)))
                 [0..<totalShards]))"

definition rs_Encode :: "nat \<Rightarrow> nat \<Rightarrow> matrix \<Rightarrow> shards \<Rightarrow> rs_error + shards" where
  "rs_Encode dataShards totalShards m shards =
     (if length shards \<noteq> totalShards then Inl ErrTooFewShards
      else
        case checkShards shards False of
          Some e \<Rightarrow> Inl e
        | None \<Rightarrow>
            Inr (take dataShards shards
                 @ map Some (codeSomeShards (drop dataShards m)
                               (map bytes_of (take dataShards shards)) (shardSize shards))))"

definition rs_Reconstruct :: "nat \<Rightarrow> nat \<Rightarrow> matrix \<Rightarrow> shards \<Rightarrow> rs_error + shards" where
  "rs_Reconstruct dataShards totalShards m shards =
     (if length shards \<noteq> totalShards then Inl ErrTooFewShards
      else
        case checkShards shards True of
          Some e \<Rightarrow> Inl e
        | None \<Rightarrow>
            let sz = shardSize shards;
                present = filter (\<lambda>i. bytes_of (shards ! i) \<noteq> []) [0..<totalShards]
            in if length present = totalShards then Inr shards
               else if length present < dataShards then Inl ErrTooFewShards
               else
                 let validIndices = take dataShards present;
                     subShards = map (\<lambda>i. bytes_of (shards ! i)) validIndices
                 in case Invert (map (\<lambda>i. m ! i) validIndices) of
                      None \<Rightarrow> Inl ErrSingular
                    | Some dataDecodeMatrix \<Rightarrow>
                        let recovered =
                              map (\<lambda>i. if bytes_of (shards ! i) = []
                                        then hd (codeSomeShards [dataDecodeMatrix ! i] subShards sz)
                                        else bytes_of (shards ! i))
                                [0..<dataShards]
                        in Inr (map (\<lambda>i. if bytes_of (shards ! i) \<noteq> [] then shards ! i
                                         else if i < dataShards then Some (recovered ! i)
                                         else Some (hd (codeSomeShards [m ! i] recovered sz)))
                                  [0..<totalShards]))"

definition rs_Verify :: "nat \<Rightarrow> nat \<Rightarrow> matrix \<Rightarrow> shards \<Rightarrow> rs_error + bool" where
  "rs_Verify dataShards totalShards m shards =
     (if length shards \<noteq> totalShards then Inl ErrTooFewShards
      else
        case checkShards shards False of
          Some e \<Rightarrow> Inl e
        | None \<Rightarrow>
            Inr (codeSomeShards (drop dataShards m) (map bytes_of (take dataShards shards))
                   (length (bytes_of (shards ! 0)))
                 = map bytes_of (drop dataShards shards)))"

text \<open>
  \<open>Join\<close> adds up the sizes of the data shards until they reach \<open>outSize\<close>, refusing a
  \<^verbatim>\<open>nil\<close> shard on the way, and writes the first \<open>outSize\<close> bytes of the data shards.
\<close>

fun join_size :: "shards \<Rightarrow> int \<Rightarrow> int \<Rightarrow> rs_error + int" where
  "join_size [] sz outSize = Inr sz"
| "join_size (shard # rest) sz outSize =
     (case shard of
        None \<Rightarrow> Inl ErrReconstructRequired
      | Some bs \<Rightarrow>
          if sz + int (length bs) \<ge> outSize then Inr (sz + int (length bs))
          else join_size rest (sz + int (length bs)) outSize)"

definition rs_Join :: "nat \<Rightarrow> shards \<Rightarrow> int \<Rightarrow> rs_error + bytes" where
  "rs_Join dataShards shards outSize =
     (if length shards < dataShards then Inl ErrTooFewShards
      else
        case join_size (take dataShards shards) 0 outSize of
          Inl e \<Rightarrow> Inl e
        | Inr sz \<Rightarrow>
            if sz < outSize then Inl ErrShortData
            else Inr (take (nat outSize) (concat (map bytes_of (take dataShards shards)))))"

definition rs_New :: new_encoder where
  "rs_New dataShards parityShards =
     (if dataShards = 0 then Inl ErrInvShardNum
      else if dataShards + parityShards > 256 then Inl ErrMaxShardNum
      else
        case buildMatrix dataShards (dataShards + parityShards) of
          None \<Rightarrow> Inl ErrSingular
        | Some m \<Rightarrow>
            Inr \<lparr>Split = rs_Split dataShards (dataShards + parityShards),
                 Encode = rs_Encode dataShards (dataShards + parityShards) m,
                 Reconstruct = rs_Reconstruct dataShards (dataShards + parityShards) m,
                 Verify = rs_Verify dataShards (dataShards + parityShards) m,
                 Join = rs_Join dataShards\<rparr>)"
section \<open>EncryptChunk and DecryptChunk\<close>

text \<open>
  \<^verbatim>\<open>golang.org/x/crypto/chacha20poly1305\<close> and \<^verbatim>\<open>crypto/rand\<close> are libraries outside the
  repository. The constructor \<^verbatim>\<open>chacha20poly1305.NewX\<close> is a parameter of the two
  functions; the cipher it returns is a record of the three methods the repository
  calls, \<open>Seal\<close> and \<open>Open\<close> taking \<^verbatim>\<open>dst\<close>, the nonce, the text and the additional data
  and returning the slice they appended to. The random source either fails or
  delivers the bytes of a stream.
\<close>

definition KeySize :: nat where
  "KeySize = 32"

datatype crypto_error =
    InvalidKeySize nat nat
  | KeyFailed
  | CipherFailed
  | NonceFailed
  | CiphertextTooShort nat nat
  | DecryptionFailed

record aead =
  NonceSize :: nat
  Seal :: "bytes \<Rightarrow> bytes \<Rightarrow> bytes \<Rightarrow> bytes \<Rightarrow> bytes"
  Open :: "bytes \<Rightarrow> bytes \<Rightarrow> bytes \<Rightarrow> bytes \<Rightarrow> bytes option"

type_synonym new_aead = "bytes \<Rightarrow> aead option"

datatype entropy = Failing | Entropy "nat \<Rightarrow> byte"

definition Read :: "entropy \<Rightarrow> nat \<Rightarrow> bytes option" where
  "Read src n = (case src of Failing \<Rightarrow> None | Entropy f \<Rightarrow> Some (map f [0..<n]))"

definition GenerateKey :: "entropy \<Rightarrow> crypto_error + bytes" where
  "GenerateKey src = (case Read src KeySize of None \<Rightarrow> Inl KeyFailed | Some key \<Rightarrow> Inr key)"

definition EncryptChunk :: "new_aead \<Rightarrow> entropy \<Rightarrow> bytes \<Rightarrow> bytes \<Rightarrow> crypto_error + bytes" where
  "EncryptChunk NewX src plaintext key =
     (if length key \<noteq> KeySize then Inl (InvalidKeySize KeySize (length key))
      else
        case NewX key of
          None \<Rightarrow> Inl CipherFailed
        | Some a \<Rightarrow>
            (case Read src (NonceSize a) of
               None \<Rightarrow> Inl NonceFailed
             | Some nonce \<Rightarrow> Inr (Seal a nonce nonce plaintext [])))"

definition DecryptChunk :: "new_aead \<Rightarrow> bytes \<Rightarrow> bytes \<Rightarrow> crypto_error + bytes" where
  "DecryptChunk NewX ciphertext key =
     (if length key \<noteq> KeySize then Inl (InvalidKeySize KeySize (length key))
      else
        case NewX key of
          None \<Rightarrow> Inl CipherFailed
        | Some a \<Rightarrow>
            if length ciphertext < NonceSize a
            then Inl (CiphertextTooShort (NonceSize a) (length ciphertext))
            else
              (case Open a [] (take (NonceSize a) ciphertext)
                      (drop (NonceSize a) ciphertext) [] of
                 None \<Rightarrow> Inl DecryptionFailed
               | Some plaintext \<Rightarrow> Inr plaintext))"


section \<open>The manifest\<close>












section \<open>Vocabulary of the statements\<close>

text \<open>
  The chunk the loop builds from an index and the bytes read, the number of chunks of a
  source of \<open>n\<close> bytes, and the bytes of its \<open>i\<close>-th chunk.
\<close>

definition mkChunk :: "digest \<Rightarrow> int \<Rightarrow> bytes \<Rightarrow> Chunk" where
  "mkChunk Sum256 i d = \<lparr>Index = i, Data = d, Hash = EncodeToString (Sum256 d), Size = int (length d)\<rparr>"

definition chunkCount :: "nat \<Rightarrow> nat" where
  "chunkCount n = (n + ChunkSize - 1) div ChunkSize"

definition slice :: "bytes \<Rightarrow> nat \<Rightarrow> bytes" where
  "slice bs i = take ChunkSize (drop (i * ChunkSize) bs)"


text \<open>
  The indices marked in \<open>received\<close>, and a chunk whose index lies in
  \<open>[0, totalChunks)\<close>.
\<close>

definition trues :: "bool list \<Rightarrow> nat set" where
  "trues r = {i. i < length r \<and> r ! i}"

definition inrange :: "int \<Rightarrow> Chunk \<Rightarrow> bool" where
  "inrange totalChunks c \<longleftrightarrow> 0 \<le> Index c \<and> Index c < totalChunks"


text \<open>
  The output \<open>f\<close> holds the bytes of \<open>bs\<close> on every chunk of the set \<open>W\<close> and is no
  longer than \<open>bs\<close>.
\<close>

definition covered :: "bytes \<Rightarrow> nat set \<Rightarrow> bytes \<Rightarrow> bool" where
  "covered bs W f \<longleftrightarrow>
     length f \<le> length bs \<and>
     (\<forall>i \<in> W. \<forall>p. i * ChunkSize \<le> p \<and> p < i * ChunkSize + length (slice bs i) \<longrightarrow>
        p < length f \<and> f ! p = bs ! p)"


text \<open>
  The shard at position \<open>j\<close> passes the first loop of ReconstructChunk, and it fits into
  its slot in the second loop: its index is in range and no earlier shard has put data
  there.
\<close>

definition passes :: "digest \<Rightarrow> Shard list \<Rightarrow> nat \<Rightarrow> bool" where
  "passes Sum256 shards j \<longleftrightarrow>
     ChunkIndex (shards ! j) = ChunkIndex (shards ! 0)
   \<and> VerifyShard Sum256 (Data_shard (shards ! j)) (Hash_shard (shards ! j))"

definition fits :: "Shard list \<Rightarrow> nat \<Rightarrow> bool" where
  "fits shards j \<longleftrightarrow>
     0 \<le> ShardIndex (shards ! j) \<and> ShardIndex (shards ! j) < 6
   \<and> (\<forall>i<j. ShardIndex (shards ! i) = ShardIndex (shards ! j) \<longrightarrow> Data_shard (shards ! i) = None)"


text \<open>
  The coding matrix of four data and two parity shards; four shards of which the second
  has a hash that is not the digest of its data and the third is of another chunk; and
  the six shards of the five bytes 1 to 5 of chunk 0 under the identity digest.
\<close>

definition rs_matrix :: matrix where
  "rs_matrix = [[1, 0, 0, 0], [0, 1, 0, 0], [0, 0, 1, 0], [0, 0, 0, 1],
                [27, 28, 18, 20], [28, 27, 20, 18]]"

definition interleaved_shards :: "Shard list" where
  "interleaved_shards =
     [\<lparr>ChunkIndex = 0, ShardIndex = 0, Data_shard = Some [1], Hash_shard = ''01'', Size_shard = 1\<rparr>,
      \<lparr>ChunkIndex = 0, ShardIndex = 1, Data_shard = Some [2], Hash_shard = ''00'', Size_shard = 1\<rparr>,
      \<lparr>ChunkIndex = 1, ShardIndex = 2, Data_shard = Some [3], Hash_shard = ''03'', Size_shard = 1\<rparr>,
      \<lparr>ChunkIndex = 0, ShardIndex = 3, Data_shard = Some [4], Hash_shard = ''04'', Size_shard = 1\<rparr>]"

definition example_shards :: "Shard list" where
  "example_shards =
     [\<lparr>ChunkIndex = 0, ShardIndex = 0, Data_shard = Some [1, 2], Hash_shard = ''0102'', Size_shard = 2\<rparr>,
      \<lparr>ChunkIndex = 0, ShardIndex = 1, Data_shard = Some [3, 4], Hash_shard = ''0304'', Size_shard = 2\<rparr>,
      \<lparr>ChunkIndex = 0, ShardIndex = 2, Data_shard = Some [5, 0], Hash_shard = ''0500'', Size_shard = 2\<rparr>,
      \<lparr>ChunkIndex = 0, ShardIndex = 3, Data_shard = Some [0, 0], Hash_shard = ''0000'', Size_shard = 2\<rparr>,
      \<lparr>ChunkIndex = 0, ShardIndex = 4, Data_shard = Some [101, 70], Hash_shard = ''6546'', Size_shard = 2\<rparr>,
      \<lparr>ChunkIndex = 0, ShardIndex = 5, Data_shard = Some [117, 84], Hash_shard = ''7554'', Size_shard = 2\<rparr>]"


text \<open>
  A cipher for the examples: it adds a byte of the key to every byte of the plaintext
  and appends a tag of 16 copies of the first byte of the nonce.
\<close>

definition demo_cipher :: "byte \<Rightarrow> aead" where
  "demo_cipher k =
     \<lparr>NonceSize = 24,
      Seal = (\<lambda>dst nonce plaintext ad.
                dst @ map (\<lambda>b. b + k) plaintext @ replicate 16 (hd nonce)),
      Open = (\<lambda>dst nonce ciphertext ad.
                if length ciphertext < 16
                   \<or> drop (length ciphertext - 16) ciphertext \<noteq> replicate 16 (hd nonce)
                then None
                else Some (dst @ map (\<lambda>b. b - k) (take (length ciphertext - 16) ciphertext)))\<rparr>"

definition demo_aead :: new_aead where
  "demo_aead key = (if length key \<noteq> 32 then None else Some (demo_cipher (hd key)))"







text \<open>
  The powers of two in a byte, and the associativity of the multiplication at a triple
  of bytes.
\<close>

definition basis8 :: "byte list" where
  "basis8 = [1, 2, 4, 8, 16, 32, 64, 128]"

fun assoc_at :: "byte \<times> byte \<times> byte \<Rightarrow> bool" where
  "assoc_at (a, b, c) \<longleftrightarrow> galMultiply a (galMultiply b c) = galMultiply (galMultiply a b) c"


text \<open>
  The selections of four of the six shard indices, in increasing order, and the test
  that the rows of a coding matrix at a selection have an inverse of four by four.
\<close>

definition valid_sets :: "nat list list" where
  "valid_sets =
     [[0, 1, 2, 3], [0, 1, 2, 4], [0, 1, 2, 5], [0, 1, 3, 4], [0, 1, 3, 5],
      [0, 1, 4, 5], [0, 2, 3, 4], [0, 2, 3, 5], [0, 2, 4, 5], [0, 3, 4, 5],
      [1, 2, 3, 4], [1, 2, 3, 5], [1, 2, 4, 5], [1, 3, 4, 5], [2, 3, 4, 5]]"

fun decodes :: "matrix \<Rightarrow> nat list \<Rightarrow> bool" where
  "decodes m V =
     (case Invert (map (\<lambda>i. m ! i) V) of
        None \<Rightarrow> False
      | Some dec \<Rightarrow>
          length dec = 4 \<and> list_all (\<lambda>r. length r = 4) dec
        \<and> Multiply dec (map (\<lambda>i. m ! i) V) = identityMatrix 4)"


text \<open>
  The six shards of four data shards of \<open>n\<close> bytes: the data shards and their two parity
  shards. The bytes per shard of a buffer, the buffer padded with zero bytes to six
  shards, and its four data shards.
\<close>

definition codeword :: "bytes list \<Rightarrow> nat \<Rightarrow> bytes list" where
  "codeword data n = data @ codeSomeShards (drop 4 rs_matrix) data n"

definition perShard :: "bytes \<Rightarrow> nat" where
  "perShard buf = (length buf + 4 - 1) div 4"

definition padded :: "bytes \<Rightarrow> bytes" where
  "padded buf = buf @ replicate (6 * perShard buf - length buf) 0"

definition dataOf :: "bytes \<Rightarrow> bytes list" where
  "dataOf buf = map (\<lambda>i. take (perShard buf) (drop (i * perShard buf) (padded buf))) [0..<4]"



section \<open>Properties of StreamChunkFile\<close>

lemma ChunkSize_pos: "0 < ChunkSize"
  by (simp add: ChunkSize_def)

lemma ceil_small: "0 < (n::nat) \<Longrightarrow> n < c \<Longrightarrow> (n + c - 1) div c = 1"
proof -
  assume a: "0 < n" "n < c"
  have e: "n + c - 1 = (n - 1) + c" using a by simp
  have "((n - 1) + c) div c = (n - 1) div c + 1"
    using a by (intro div_add_self2) simp
  moreover have "(n - 1) div c = 0" using a by simp
  ultimately show ?thesis unfolding e by simp
qed

lemma ceil_step: "0 < (c::nat) \<Longrightarrow> c \<le> n \<Longrightarrow> (n + c - 1) div c = Suc ((n - c + c - 1) div c)"
proof -
  assume a: "0 < c" "c \<le> n"
  have e: "n + c - 1 = (n - 1) + c" "n - c + c - 1 = n - 1" using a by simp_all
  have "((n - 1) + c) div c = (n - 1) div c + 1"
    using a by (intro div_add_self2) simp
  then show ?thesis unfolding e by simp
qed

lemma chunkCount_0: "chunkCount 0 = 0"
  using ChunkSize_pos by (simp add: chunkCount_def)

lemma chunkCount_small: "0 < n \<Longrightarrow> n < ChunkSize \<Longrightarrow> chunkCount n = 1"
  unfolding chunkCount_def by (rule ceil_small)

lemma chunkCount_step: "ChunkSize \<le> n \<Longrightarrow> chunkCount n = Suc (chunkCount (n - ChunkSize))"
  unfolding chunkCount_def using ChunkSize_pos by (rule ceil_step)

lemma stream_loop_ok:
  "stream_loop H False rest idx =
     map (\<lambda>i. \<lparr>Chunk = mkChunk H (idx + int i) (slice rest i), Err = None\<rparr>)
       [0..<chunkCount (length rest)]"
proof (induction "length rest" arbitrary: rest idx rule: less_induct)
  case less
  show ?case
  proof (cases "ChunkSize \<le> length rest")
    case True
    have rec: "stream_loop H False (drop ChunkSize rest) (idx + 1) =
       map (\<lambda>i. \<lparr>Chunk = mkChunk H (idx + 1 + int i) (slice (drop ChunkSize rest) i), Err = None\<rparr>)
       [0..<chunkCount (length (drop ChunkSize rest))]"
      using less[of "drop ChunkSize rest" "idx + 1"] True ChunkSize_pos by simp
    have sl: "\<And>i. slice (drop ChunkSize rest) i = slice rest (Suc i)"
      by (simp add: slice_def add.commute)
    have cnt: "chunkCount (length rest) = Suc (chunkCount (length (drop ChunkSize rest)))"
      using chunkCount_step[OF True] by simp
    have "stream_loop H False rest idx =
       \<lparr>Chunk = mkChunk H idx (take ChunkSize rest), Err = None\<rparr> # stream_loop H False (drop ChunkSize rest) (idx + 1)"
      using True by (subst stream_loop.simps) (simp add: ReadFull_def Let_def mkChunk_def min_def)
    also have "\<dots> = map (\<lambda>i. \<lparr>Chunk = mkChunk H (idx + int i) (slice rest i), Err = None\<rparr>)
       [0..<Suc (chunkCount (length (drop ChunkSize rest)))]"
      unfolding rec sl
      by (simp add: upt_conv_Cons map_Suc_upt[symmetric] slice_def del: upt_Suc) (simp add: ac_simps)
    finally show ?thesis using cnt by simp
  next
    case False
    show ?thesis
    proof (cases "rest = []")
      case True
      then show ?thesis
        using ChunkSize_pos by (subst stream_loop.simps) (simp add: ReadFull_def chunkCount_0)
    next
      case nonempty: False
      have "chunkCount (length rest) = 1"
        using False nonempty by (simp add: chunkCount_small)
      then show ?thesis using False nonempty
        by (subst stream_loop.simps) (simp add: ReadFull_def Let_def mkChunk_def slice_def)
    qed
  qed
qed

lemma StreamChunkFile_ok:
  "StreamChunkFile H (Source bs False) =
     map (\<lambda>i. \<lparr>Chunk = mkChunk H (int i) (slice bs i), Err = None\<rparr>)
       [0..<chunkCount (length bs)]"
  by (simp add: StreamChunkFile_def stream_loop_ok)

lemma ceil_div_mod:
  assumes "0 < (c::nat)"
  shows "(n + c - 1) div c = n div c + (if n mod c = 0 then 0 else 1)"
proof -
  have n: "n = n div c * c + n mod c" by simp
  show ?thesis
  proof (cases "n mod c = 0")
    case True
    then have "n + c - 1 = (c - 1) + n div c * c" using assms n by linarith
    then have "(n + c - 1) div c = (c - 1) div c + n div c"
      using assms by (simp only: div_mult_self1) 
    then show ?thesis using True assms by simp
  next
    case False
    then have "n + c - 1 = (n mod c - 1 + c) + n div c * c" using assms n by linarith
    then have "(n + c - 1) div c = (n mod c - 1 + c) div c + n div c"
      using assms by (simp only: div_mult_self1)
    moreover have "(n mod c - 1 + c) div c = 1"
      using assms False ceil_small[of "n mod c" c] by simp
    ultimately show ?thesis using False by simp
  qed
qed

lemma less_ceil_iff:
  assumes "0 < (c::nat)"
  shows "k < (n + c - 1) div c \<longleftrightarrow> k * c < n"
proof -
  have "k < (n + c - 1) div c \<longleftrightarrow> Suc k \<le> (n + c - 1) div c" by auto
  also have "\<dots> \<longleftrightarrow> Suc k * c \<le> n + c - 1"
    using assms by (simp add: less_eq_div_iff_mult_less_eq)
  also have "\<dots> \<longleftrightarrow> k * c < n" using assms by auto
  finally show ?thesis .
qed

lemma concat_takes:
  "concat (map (\<lambda>i. take c (drop (i * c) bs)) [0..<m]) = take (m * c) bs"
proof (induction m)
  case 0
  show ?case by simp
next
  case (Suc m)
  have "take (Suc m * c) bs = take (m * c) bs @ take c (drop (m * c) bs)"
    by (simp only: mult_Suc take_add add.commute[of c])
  then show ?case using Suc by simp
qed


lemma less_chunkCount_iff: "k < chunkCount n \<longleftrightarrow> k * ChunkSize < n"
  unfolding chunkCount_def using ChunkSize_pos by (rule less_ceil_iff)

lemma chunkCount_div_mod:
  "chunkCount n = n div ChunkSize + (if n mod ChunkSize = 0 then 0 else 1)"
  unfolding chunkCount_def using ChunkSize_pos by (rule ceil_div_mod)

lemma length_slice: "length (slice bs i) = min ChunkSize (length bs - i * ChunkSize)"
  by (simp add: slice_def)

lemma length_slice_pos: "i < chunkCount (length bs) \<Longrightarrow> 1 \<le> length (slice bs i)"
  using ChunkSize_pos by (simp add: length_slice less_chunkCount_iff)

lemma length_slice_le: "length (slice bs i) \<le> ChunkSize"
  by (simp add: length_slice)

lemma length_slice_full:
  "Suc i < chunkCount (length bs) \<Longrightarrow> length (slice bs i) = ChunkSize"
  by (simp add: length_slice less_chunkCount_iff)

lemma length_slice_last_rem:
  assumes "Suc i = chunkCount (length bs)" "length bs mod ChunkSize \<noteq> 0"
  shows "length (slice bs i) = length bs mod ChunkSize"
proof -
  have i: "i = length bs div ChunkSize"
    using assms by (simp add: chunkCount_div_mod)
  have "length bs - i * ChunkSize = length bs mod ChunkSize"
    unfolding i by (simp add: minus_div_mult_eq_mod)
  moreover have "length bs mod ChunkSize < ChunkSize"
    using ChunkSize_pos by simp
  ultimately show ?thesis by (simp add: length_slice)
qed

lemma length_slice_last_full:
  assumes "Suc i = chunkCount (length bs)" "length bs mod ChunkSize = 0"
  shows "length (slice bs i) = ChunkSize"
proof -
  have "Suc i = length bs div ChunkSize"
    using assms by (simp add: chunkCount_div_mod)
  then have "length bs = Suc i * ChunkSize"
    using assms(2) by (metis div_mult_mod_eq add.right_neutral)
  then show ?thesis by (simp add: length_slice)
qed

lemma concat_slices: "concat (map (slice bs) [0..<chunkCount (length bs)]) = bs"
proof -
  have "\<not> chunkCount (length bs) * ChunkSize < length bs"
    using less_chunkCount_iff[of "chunkCount (length bs)" "length bs"] by simp
  then show ?thesis
    unfolding slice_def by (simp add: concat_takes)
qed

text \<open>
  Claim C4. For a byte source of \<open>N\<close> bytes that opens and reads without error,
  StreamChunkFile sends no error and \<open>\<lceil>N / ChunkSize\<rceil>\<close> chunks; the \<open>i\<close>-th chunk has
  index \<open>i\<close>, holds the bytes \<open>[i * ChunkSize, (i + 1) * ChunkSize)\<close> of the source, its
  hash is the hex digest of exactly these bytes and its size is their number. Every chunk
  but the last holds exactly ChunkSize bytes; the last holds the remainder
  \<open>N mod ChunkSize\<close> (between 1 and ChunkSize - 1) when \<open>N\<close> is not a multiple of
  ChunkSize, and ChunkSize bytes otherwise. An empty source yields no chunk at all, and
  the chunks' bytes, in order, are the source.
\<close>

theorem StreamChunkFile_chunks:
  "let out = StreamChunkFile Sum256 (Source bs False);
       N = length bs
   in (\<forall>r \<in> set out. Err r = None)
    \<and> length out = (N + ChunkSize - 1) div ChunkSize
    \<and> (\<forall>i < length out.
          Index (Chunk (out ! i)) = int i
        \<and> Data (Chunk (out ! i)) = take ChunkSize (drop (i * ChunkSize) bs)
        \<and> Hash (Chunk (out ! i)) = EncodeToString (Sum256 (Data (Chunk (out ! i))))
        \<and> Size (Chunk (out ! i)) = int (length (Data (Chunk (out ! i))))
        \<and> 1 \<le> length (Data (Chunk (out ! i)))
        \<and> (Suc i < length out \<longrightarrow> length (Data (Chunk (out ! i))) = ChunkSize)
        \<and> (Suc i = length out \<and> N mod ChunkSize \<noteq> 0 \<longrightarrow>
             length (Data (Chunk (out ! i))) = N mod ChunkSize
           \<and> 1 \<le> N mod ChunkSize \<and> N mod ChunkSize < ChunkSize)
        \<and> (Suc i = length out \<and> N mod ChunkSize = 0 \<longrightarrow>
             length (Data (Chunk (out ! i))) = ChunkSize))
    \<and> (N = 0 \<longrightarrow> out = [])
    \<and> concat (map (\<lambda>r. Data (Chunk r)) out) = bs"
proof -
  let ?m = "chunkCount (length bs)"
  let ?c = "\<lambda>i. mkChunk Sum256 (int i) (slice bs i)"
  have len: "(length bs + ChunkSize - 1) div ChunkSize = ?m"
    by (simp add: chunkCount_def)
  have D: "Data (?c i) = slice bs i" for i
    by (simp add: mkChunk_def)
  have rem: "length bs mod ChunkSize < ChunkSize"
    using ChunkSize_pos by simp
  have per: "Index (?c i) = int i
      \<and> Data (?c i) = take ChunkSize (drop (i * ChunkSize) bs)
      \<and> Hash (?c i) = EncodeToString (Sum256 (Data (?c i)))
      \<and> Size (?c i) = int (length (Data (?c i)))" for i
    by (simp add: mkChunk_def slice_def)
  have l1: "i < ?m \<Longrightarrow> 1 \<le> length (Data (?c i))" for i
    unfolding D by (rule length_slice_pos)
  have l2: "Suc i < ?m \<Longrightarrow> length (Data (?c i)) = ChunkSize" for i
    unfolding D by (rule length_slice_full)
  have l3: "Suc i = ?m \<Longrightarrow> length bs mod ChunkSize \<noteq> 0 \<Longrightarrow>
      length (Data (?c i)) = length bs mod ChunkSize" for i
    unfolding D by (rule length_slice_last_rem)
  have l4: "Suc i = ?m \<Longrightarrow> length bs mod ChunkSize = 0 \<Longrightarrow>
      length (Data (?c i)) = ChunkSize" for i
    unfolding D by (rule length_slice_last_full)
  have cc: "concat (map (\<lambda>r. Data (Chunk r))
        (map (\<lambda>i. \<lparr>Chunk = ?c i, Err = None\<rparr>) [0..<?m])) = bs"
    using concat_slices[of bs] by (simp add: o_def mkChunk_def)
  have e: "length bs = 0 \<Longrightarrow> ?m = 0"
    by (simp add: chunkCount_0)
  show ?thesis
    unfolding Let_def StreamChunkFile_ok len
    apply (intro conjI allI impI ballI)
    subgoal by auto
    subgoal by simp
    subgoal using per by simp
    subgoal using per by simp
    subgoal using per by simp
    subgoal using per by simp
    subgoal using l1 by simp
    subgoal using l2 by simp
    subgoal using l3 by simp
    subgoal using l3 by (simp add: Suc_leI)
    subgoal using rem by simp
    subgoal using l4 by simp
    subgoal using e by simp
    subgoal using cc by simp
    done
qed


theorem StreamChunkFile_chunks_witness:
  "length (StreamChunkFile (\<lambda>d. d) (Source (replicate ChunkSize 0 @ [7]) False)) = 2
   \<and> Err (StreamChunkFile (\<lambda>d. d) (Source (replicate ChunkSize 0 @ [7]) False) ! 1) = None
   \<and> Chunk (StreamChunkFile (\<lambda>d. d) (Source (replicate ChunkSize 0 @ [7]) False) ! 1)
       = \<lparr>Index = 1, Data = [7], Hash = ''07'', Size = 1\<rparr>
   \<and> Index (Chunk (StreamChunkFile (\<lambda>d. d) (Source (replicate ChunkSize 0 @ [7]) False) ! 0)) = 0
   \<and> Data (Chunk (StreamChunkFile (\<lambda>d. d) (Source (replicate ChunkSize 0 @ [7]) False) ! 0))
       = replicate ChunkSize 0
   \<and> StreamChunkFile (\<lambda>d. d) (Source [] False) = []"
proof -
  let ?bs = "replicate ChunkSize 0 @ [7::byte]"
  let ?out = "StreamChunkFile (\<lambda>d. d) (Source ?bs False)"
  note t = StreamChunkFile_chunks[of "\<lambda>d. d" ?bs, unfolded Let_def]
  have n: "length ?out = 2"
    using t by (simp add: ChunkSize_def)
  have e: "Err (?out ! 1) = None"
    using t n by simp
  have c1: "Index (Chunk (?out ! 1)) = 1 \<and> Data (Chunk (?out ! 1)) = [7]
     \<and> Hash (Chunk (?out ! 1)) = EncodeToString (Data (Chunk (?out ! 1)))
     \<and> Size (Chunk (?out ! 1)) = int (length (Data (Chunk (?out ! 1))))"
    using t n ChunkSize_pos by simp
  have h: "EncodeToString [7] = ''07''"
    by (simp add: EncodeToString_def hexdigit_def)
  have c1': "Chunk (?out ! 1) = \<lparr>Index = 1, Data = [7], Hash = ''07'', Size = 1\<rparr>"
    using c1 h by (cases "Chunk (?out ! 1)") simp
  have c0: "Index (Chunk (?out ! 0)) = 0 \<and> Data (Chunk (?out ! 0)) = replicate ChunkSize 0"
    using t n ChunkSize_pos by simp
  have z: "StreamChunkFile (\<lambda>d. d) (Source [] False) = []"
    using StreamChunkFile_chunks[of "\<lambda>d. d" "[]", unfolded Let_def] by simp
  show ?thesis using n e c1' c0 z by simp
qed

section \<open>Properties of AssembleChunks\<close>

lemma trues_update: "k < length r \<Longrightarrow> trues (r[k := True]) = insert k (trues r)"
  by (auto simp: trues_def nth_list_update)

lemma trues_finite: "finite (trues r)"
  by (simp add: trues_def)

lemma trues_replicate: "trues (replicate n False) = {}"
  by (auto simp: trues_def)

lemma WriteAt_None: "0 \<le> off \<Longrightarrow> \<exists>f'. WriteAt None f b off = Some f'"
  by (simp add: WriteAt_def)


lemma assemble_loop_inrange:
  assumes "\<forall>c \<in> set cs. inrange tc c" "length r = nat tc" "u = int (card (trues r))"
  shows "\<exists>f' r'. assemble_loop None tc cs (f, r, u) = Inr (f', r', int (card (trues r')))
           \<and> length r' = nat tc
           \<and> trues r' = trues r \<union> (\<lambda>c. nat (Index c)) ` set cs"
  using assms
proof (induction cs arbitrary: f r u)
  case Nil
  then show ?case by simp
next
  case (Cons c cs)
  have c: "0 \<le> Index c" "Index c < tc" and k: "nat (Index c) < length r"
    using Cons.prems by (auto simp: inrange_def)
  show ?case
  proof (cases "r ! nat (Index c)")
    case True
    then have "nat (Index c) \<in> trues r" using k by (simp add: trues_def)
    then show ?thesis
      using Cons.IH[of r u f] Cons.prems c True by auto
  next
    case False
    obtain f' where w: "WriteAt None f (Data c) (Index c * int ChunkSize) = Some f'"
      using WriteAt_None[of "Index c * int ChunkSize" f "Data c"] c by auto
    have notin: "nat (Index c) \<notin> trues r" using False by (simp add: trues_def)
    have u': "u + 1 = int (card (trues (r[nat (Index c) := True])))"
      using Cons.prems(3) notin k by (simp add: trues_update trues_finite)
    show ?thesis
      using Cons.IH[of "r[nat (Index c) := True]" "u + 1" f'] Cons.prems(1,2) c False w u' k
      by (auto simp: trues_update)
  qed
qed










lemma WriteAt_None_eq:
  assumes "b \<noteq> []"
  shows "WriteAt None f b (int k) =
     Some (take k (f @ replicate (k - length f) 0) @ b @ drop (k + length b) f)"
  using assms by (simp add: WriteAt_def)

lemma length_written:
  "length (take k (f @ replicate (k - length f) 0) @ b @ drop (k + length b) f)
     = max (length f) (k + length b)"
  by auto

lemma nth_written:
  assumes "p < max (length f) (k + length b)"
  shows "(take k (f @ replicate (k - length f) (0::byte)) @ b @ drop (k + length b) f) ! p =
     (if p < k then (if p < length f then f ! p else 0)
      else if p < k + length b then b ! (p - k) else f ! p)"
proof -
  have lt: "length (take k (f @ replicate (k - length f) (0::byte))) = k" by auto
  show ?thesis
  proof (cases "p < k")
    case True
    have "(take k (f @ replicate (k - length f) (0::byte)) @ b @ drop (k + length b) f) ! p
        = take k (f @ replicate (k - length f) (0::byte)) ! p"
      using True lt by (simp add: nth_append del: length_take take_append)
    also have "\<dots> = (f @ replicate (k - length f) (0::byte)) ! p"
      using True by (rule nth_take)
    also have "\<dots> = (if p < length f then f ! p else 0)"
      using True by (auto simp: nth_append)
    finally show ?thesis using True by simp
  next
    case False
    then show ?thesis using lt assms
      by (auto simp: nth_append)
  qed
qed

lemma nth_slice: "q < length (slice bs i) \<Longrightarrow> slice bs i ! q = bs ! (i * ChunkSize + q)"
proof -
  assume q: "q < length (slice bs i)"
  then have "q < min ChunkSize (length bs - i * ChunkSize)" by (simp add: length_slice)
  then have "i * ChunkSize \<le> length bs" by linarith
  then have "drop (i * ChunkSize) bs ! q = bs ! (i * ChunkSize + q)"
    by (rule nth_drop)
  then show ?thesis using q by (simp add: slice_def)
qed

lemma slice_end: "i < chunkCount (length bs) \<Longrightarrow> i * ChunkSize + length (slice bs i) \<le> length bs"
  by (simp add: length_slice less_chunkCount_iff)

lemma covered_step:
  assumes "covered bs W f" "i < chunkCount (length bs)"
  shows "covered bs (insert i W)
     (take (i * ChunkSize) (f @ replicate (i * ChunkSize - length f) 0) @ slice bs i
        @ drop (i * ChunkSize + length (slice bs i)) f)"
proof -
  let ?k = "i * ChunkSize"
  let ?b = "slice bs i"
  let ?g = "take ?k (f @ replicate (?k - length f) 0) @ ?b @ drop (?k + length ?b) f"
  have len: "length ?g = max (length f) (?k + length ?b)"
    by (rule length_written)
  have fl: "length f \<le> length bs"
    and W: "\<And>j p. j \<in> W \<Longrightarrow> j * ChunkSize \<le> p \<Longrightarrow> p < j * ChunkSize + length (slice bs j)
           \<Longrightarrow> p < length f \<and> f ! p = bs ! p"
    using assms(1) by (auto simp: covered_def)
  have l: "length ?g \<le> length bs"
    unfolding len using fl slice_end[OF assms(2)] by simp
  have pt: "p < length ?g \<and> ?g ! p = bs ! p"
    if j: "j \<in> insert i W" and p: "j * ChunkSize \<le> p" "p < j * ChunkSize + length (slice bs j)"
    for j p
  proof -
    have inW: "p < length f \<and> f ! p = bs ! p" if "p < ?k \<or> ?k + length ?b \<le> p"
    proof -
      have "j \<noteq> i" using that p by auto
      then show ?thesis using W[of j p] j p by simp
    qed
    have lt: "p < max (length f) (?k + length ?b)"
    proof (cases "p < ?k \<or> ?k + length ?b \<le> p")
      case True
      then show ?thesis using inW by (simp add: less_max_iff_disj)
    next
      case False
      then show ?thesis by (simp add: less_max_iff_disj)
    qed
    have "?g ! p = bs ! p"
    proof (cases "p < ?k")
      case True
      then show ?thesis using nth_written[OF lt] inW by simp
    next
      case ge: False
      show ?thesis
      proof (cases "p < ?k + length ?b")
        case True
        have "?b ! (p - ?k) = bs ! (?k + (p - ?k))"
          using True ge by (intro nth_slice) simp
        then show ?thesis using nth_written[OF lt] True ge by simp
      next
        case False
        then show ?thesis using nth_written[OF lt] ge inW by simp
      qed
    qed
    then show ?thesis using lt len by simp
  qed
  show ?thesis
    unfolding covered_def using l pt by blast
qed

lemma covered_all:
  assumes "covered bs {i. i < chunkCount (length bs)} f"
  shows "f = bs"
proof -
  have fl: "length f \<le> length bs" using assms by (simp add: covered_def)
  have pt: "p < length f \<and> f ! p = bs ! p" if "p < length bs" for p
  proof -
    let ?i = "p div ChunkSize"
    have i: "?i * ChunkSize \<le> p" by simp
    then have "?i * ChunkSize < length bs" using that by linarith
    then have im: "?i < chunkCount (length bs)" by (simp add: less_chunkCount_iff)
    have "p < ?i * ChunkSize + ChunkSize"
      using ChunkSize_pos by (metis div_mult_mod_eq add_less_cancel_left mod_less_divisor)
    then have "p < ?i * ChunkSize + length (slice bs ?i)"
      using that by (simp add: length_slice)
    then show ?thesis using assms im i by (simp add: covered_def)
  qed
  show ?thesis
  proof (rule nth_equalityI)
    show "length f = length bs"
    proof (cases "length bs")
      case 0
      then show ?thesis using fl by simp
    next
      case (Suc n)
      then have "n < length f" using pt[of n] by simp
      then show ?thesis using fl Suc by simp
    qed
  next
    fix p assume "p < length f"
    then show "f ! p = bs ! p" using pt[of p] fl by simp
  qed
qed


lemma assemble_loop_covered:
  assumes "\<forall>c \<in> set cs. \<exists>i < chunkCount (length bs). c = mkChunk H (int i) (slice bs i)"
    and "length r = chunkCount (length bs)"
    and "covered bs (trues r) f"
    and "assemble_loop None (int (chunkCount (length bs))) cs (f, r, u) = Inr (f', r', u')"
  shows "covered bs (trues r') f'"
  using assms
proof (induction cs arbitrary: f r u)
  case Nil
  then show ?case by simp
next
  case (Cons c cs)
  obtain i where i: "i < chunkCount (length bs)" and c: "c = mkChunk H (int i) (slice bs i)"
    using Cons.prems(1) by auto
  have ic: "Index c = int i" "Data c = slice bs i"
    using c by (simp_all add: mkChunk_def)
  have rest: "\<forall>c \<in> set cs. \<exists>i < chunkCount (length bs). c = mkChunk H (int i) (slice bs i)"
    using Cons.prems(1) by simp
  show ?case
  proof (cases "r ! i")
    case True
    then have "assemble_loop None (int (chunkCount (length bs))) cs (f, r, u) = Inr (f', r', u')"
      using Cons.prems(4) i ic by simp
    from Cons.IH[OF rest Cons.prems(2,3) this] show ?thesis .
  next
    case False
    have ne: "slice bs i \<noteq> []"
      using length_slice_pos[OF i] by auto
    let ?g = "take (i * ChunkSize) (f @ replicate (i * ChunkSize - length f) 0) @ slice bs i
        @ drop (i * ChunkSize + length (slice bs i)) f"
    have w: "WriteAt None f (Data c) (Index c * int ChunkSize) = Some ?g"
      using WriteAt_None_eq[OF ne, of f "i * ChunkSize"] ic by simp
    have l: "assemble_loop None (int (chunkCount (length bs))) cs (?g, r[i := True], u + 1)
        = Inr (f', r', u')"
      using Cons.prems(4) i ic False w by simp
    have cov: "covered bs (trues (r[i := True])) ?g"
      using covered_step[OF Cons.prems(3) i] i Cons.prems(2) by (simp add: trues_update)
    from Cons.IH[OF rest _ cov l] Cons.prems(2) show ?thesis by simp
  qed
qed

text \<open>
  Claim C5. For every file content \<open>bs\<close> (the empty one included), delivering the chunks
  that StreamChunkFile produces in any order and with any repetitions (\<open>delivery\<close> is
  any list with exactly these chunks as its elements), with \<open>totalChunks\<close> the number of
  chunks, succeeds on an output file that can be created and written, and the bytes
  written are \<open>bs\<close>. The number of chunks is within the allocation limit, as it is for
  every file: a file of less than \<open>2 ^ 63\<close> bytes has at most \<open>2 ^ 43\<close> chunks.
\<close>

theorem AssembleChunks_roundtrip:
  assumes "set delivery = set (map Chunk (StreamChunkFile Sum256 (Source bs False)))"
    and "int (length (StreamChunkFile Sum256 (Source bs False))) \<le> maxAlloc"
  shows "AssembleChunks maxAlloc (Writable None) delivery
           (int (length (StreamChunkFile Sum256 (Source bs False)))) = Inr bs"
proof -
  let ?m = "chunkCount (length bs)"
  let ?c = "\<lambda>i. mkChunk Sum256 (int i) (slice bs i)"
  have del: "set delivery = ?c ` {0..<?m}"
    using assms(1) by (simp add: StreamChunkFile_ok o_def image_image)
  have total: "int (length (StreamChunkFile Sum256 (Source bs False))) = int ?m"
    by (simp add: StreamChunkFile_ok)
  have lim: "int ?m \<le> maxAlloc"
    using assms(2) unfolding total .
  have ex: "\<forall>c \<in> set delivery. \<exists>i < ?m. c = ?c i"
    using del by auto
  have inr: "\<forall>c \<in> set delivery. inrange (int ?m) c"
    using del by (auto simp: inrange_def mkChunk_def)
  have idx: "(\<lambda>c. nat (Index c)) ` set delivery = {i. i < ?m}"
    unfolding del by (auto simp: mkChunk_def image_image)
  obtain f' r' where l: "assemble_loop None (int ?m) delivery ([], replicate ?m False, 0)
        = Inr (f', r', int (card (trues r')))"
      and t: "trues r' = {i. i < ?m}"
    using assemble_loop_inrange[OF inr, of "replicate ?m False" 0 "[]"] idx
    by (auto simp: trues_replicate)
  have "covered bs (trues (replicate ?m False)) []"
    by (simp add: trues_replicate covered_def)
  from assemble_loop_covered[OF ex _ this l] have "covered bs {i. i < ?m} f'"
    using t by simp
  then have "f' = bs" by (rule covered_all)
  moreover have "card (trues r') = ?m" using t by simp
  ultimately show ?thesis
    unfolding total using l lim by (simp add: AssembleChunks_def)
qed

theorem AssembleChunks_roundtrip_witness:
  "AssembleChunks (2 ^ 48) (Writable None)
     [\<lparr>Index = 1, Data = [7], Hash = ''07'', Size = 1\<rparr>,
      \<lparr>Index = 0, Data = replicate ChunkSize 0,
        Hash = EncodeToString (replicate ChunkSize 0), Size = int ChunkSize\<rparr>,
      \<lparr>Index = 1, Data = [7], Hash = ''07'', Size = 1\<rparr>] 2
   = Inr (replicate ChunkSize 0 @ [7])
   \<and> AssembleChunks (2 ^ 48) (Writable None) [] 0 = Inr []"
proof -
  let ?bs = "replicate ChunkSize 0 @ [7::byte]"
  have n: "chunkCount (Suc ChunkSize) = 2"
    by (simp add: chunkCount_def ChunkSize_def)
  have two: "[0..<2] = [0, 1]"
    by (simp add: upt_rec)
  have h: "EncodeToString [7] = ''07''"
    by (simp add: EncodeToString_def hexdigit_def)
  have out: "map Chunk (StreamChunkFile (\<lambda>d. d) (Source ?bs False)) =
     [\<lparr>Index = 0, Data = replicate ChunkSize 0,
        Hash = EncodeToString (replicate ChunkSize 0), Size = int ChunkSize\<rparr>,
      \<lparr>Index = 1, Data = [7], Hash = ''07'', Size = 1\<rparr>]"
    using ChunkSize_pos by (simp add: StreamChunkFile_ok n two mkChunk_def slice_def h)
  have e: "map Chunk (StreamChunkFile (\<lambda>d. d) (Source [] False)) = []"
    by (simp add: StreamChunkFile_ok chunkCount_0)
  show ?thesis
    using AssembleChunks_roundtrip[of _ "\<lambda>d. d" ?bs "2 ^ 48", unfolded out]
      AssembleChunks_roundtrip[of "[]" "\<lambda>d. d" "[]" "2 ^ 48"] out e
    by (simp add: StreamChunkFile_ok n chunkCount_0 insert_commute)
qed


section \<open>The encoder of four data and two parity shards\<close>

lemma buildMatrix_4_6: "buildMatrix 4 6 = Some rs_matrix"
  by code_simp

lemma rs_New_4_2:
  "rs_New 4 2 =
     Inr \<lparr>Split = rs_Split 4 6, Encode = rs_Encode 4 6 rs_matrix,
          Reconstruct = rs_Reconstruct 4 6 rs_matrix, Verify = rs_Verify 4 6 rs_matrix,
          Join = rs_Join 4\<rparr>"
  by (simp add: rs_New_def buildMatrix_4_6)

lemma ShardChunk_example:
  "ShardChunk (\<lambda>d. d) rs_New \<lparr>Index = 0, Data = [], Hash = [], Size = 5\<rparr> [1, 2, 3, 4, 5]
     = Inr example_shards"
  by code_simp

lemma all_less_2: "(\<forall>j<2. P j) \<longleftrightarrow> P 0 \<and> P (1::nat)"
  by (auto simp: less_Suc_eq eval_nat_numeral)

lemma all_less_3: "(\<forall>j<3. P j) \<longleftrightarrow> P 0 \<and> P 1 \<and> P (2::nat)"
  by (auto simp: less_Suc_eq eval_nat_numeral)

lemma all_less_4: "(\<forall>j<4. P j) \<longleftrightarrow> P 0 \<and> P 1 \<and> P 2 \<and> P (3::nat)"
  by (auto simp: less_Suc_eq eval_nat_numeral)


section \<open>The checks of ReconstructChunk\<close>

lemma verify_loop_None_iff:
  "verify_loop S e shards = None \<longleftrightarrow>
     (\<forall>s \<in> set shards. ChunkIndex s = e \<and> VerifyShard S (Data_shard s) (Hash_shard s))"
  by (induction shards) auto

lemma verify_loop_append:
  "verify_loop S e (pre @ rest) =
     (case verify_loop S e pre of Some x \<Rightarrow> Some x | None \<Rightarrow> verify_loop S e rest)"
  by (induction pre) auto

lemma verify_loop_at:
  assumes "k < length shards"
    and "\<forall>j<k. ChunkIndex (shards ! j) = e
           \<and> VerifyShard S (Data_shard (shards ! j)) (Hash_shard (shards ! j))"
  shows "verify_loop S e shards =
     (if ChunkIndex (shards ! k) \<noteq> e then Some MixedChunks
      else if \<not> VerifyShard S (Data_shard (shards ! k)) (Hash_shard (shards ! k))
      then Some (ShardVerificationFailed (ShardIndex (shards ! k)))
      else verify_loop S e (drop (Suc k) shards))"
proof -
  have pre: "verify_loop S e (take k shards) = None"
    unfolding verify_loop_None_iff using assms by (auto simp: in_set_conv_nth)
  have "shards = take k shards @ shards ! k # drop (Suc k) shards"
    using assms(1) by (simp add: id_take_nth_drop)
  then have "verify_loop S e shards = verify_loop S e (take k shards @ shards ! k # drop (Suc k) shards)"
    by simp
  also have "\<dots> = verify_loop S e (shards ! k # drop (Suc k) shards)"
    unfolding verify_loop_append pre by simp
  finally show ?thesis by simp
qed

lemma fill_loop_prefix:
  assumes "\<forall>j<length pre. 0 \<le> ShardIndex (pre ! j) \<and> ShardIndex (pre ! j) < int TotalShards
             \<and> init ! nat (ShardIndex (pre ! j)) = None
             \<and> (\<forall>i<j. ShardIndex (pre ! i) = ShardIndex (pre ! j) \<longrightarrow> Data_shard (pre ! i) = None)"
    and "length init = TotalShards"
  shows "\<exists>filled. fill_loop (pre @ rest) init = fill_loop rest filled
           \<and> length filled = TotalShards
           \<and> (\<forall>n<TotalShards. filled ! n \<noteq> None \<longleftrightarrow>
                 init ! n \<noteq> None
               \<or> (\<exists>i<length pre. nat (ShardIndex (pre ! i)) = n \<and> Data_shard (pre ! i) \<noteq> None))"
  using assms
proof (induction pre arbitrary: init)
  case Nil
  then show ?case by (intro exI[of _ init]) simp
next
  case (Cons x pre)
  let ?n = "nat (ShardIndex x)"
  let ?init = "init[?n := Data_shard x]"
  have x: "0 \<le> ShardIndex x" "ShardIndex x < int TotalShards" "init ! ?n = None"
    using Cons.prems(1)[rule_format, of 0] by simp_all
  have n: "?n < length init" using x Cons.prems(2) by simp
  have step: "fill_loop ((x # pre) @ rest) init = fill_loop (pre @ rest) ?init"
    using x by simp
  have cond: "\<forall>j<length pre. 0 \<le> ShardIndex (pre ! j) \<and> ShardIndex (pre ! j) < int TotalShards
             \<and> ?init ! nat (ShardIndex (pre ! j)) = None
             \<and> (\<forall>i<j. ShardIndex (pre ! i) = ShardIndex (pre ! j) \<longrightarrow> Data_shard (pre ! i) = None)"
  proof (intro allI impI)
    fix j assume j: "j < length pre"
    note P = Cons.prems(1)[rule_format, of "Suc j", simplified, OF j]
    have a: "0 \<le> ShardIndex (pre ! j)" "ShardIndex (pre ! j) < int TotalShards"
        "init ! nat (ShardIndex (pre ! j)) = None"
      using P by simp_all
    have b: "\<forall>i<Suc j. ShardIndex ((x # pre) ! i) = ShardIndex (pre ! j) \<longrightarrow> Data_shard ((x # pre) ! i) = None"
      using P by simp
    have c: "ShardIndex x = ShardIndex (pre ! j) \<longrightarrow> Data_shard x = None"
      using b[rule_format, of 0] by simp
    have d: "\<forall>i<j. ShardIndex (pre ! i) = ShardIndex (pre ! j) \<longrightarrow> Data_shard (pre ! i) = None"
    proof (intro allI impI)
      fix i assume "i < j" "ShardIndex (pre ! i) = ShardIndex (pre ! j)"
      then show "Data_shard (pre ! i) = None" using b[rule_format, of "Suc i"] by simp
    qed
    have e: "?init ! nat (ShardIndex (pre ! j)) = None"
    proof (cases "nat (ShardIndex (pre ! j)) = ?n")
      case True
      then have "ShardIndex x = ShardIndex (pre ! j)" using x a by simp
      then show ?thesis using c True n by simp
    next
      case False
      then show ?thesis using a by simp
    qed
    show "0 \<le> ShardIndex (pre ! j) \<and> ShardIndex (pre ! j) < int TotalShards
             \<and> ?init ! nat (ShardIndex (pre ! j)) = None
             \<and> (\<forall>i<j. ShardIndex (pre ! i) = ShardIndex (pre ! j) \<longrightarrow> Data_shard (pre ! i) = None)"
      using a d e by simp
  qed
  from Cons.IH[OF cond] Cons.prems(2)
  obtain filled where f: "fill_loop (pre @ rest) ?init = fill_loop rest filled"
      "length filled = TotalShards"
      "\<forall>n<TotalShards. filled ! n \<noteq> None \<longleftrightarrow>
          ?init ! n \<noteq> None
        \<or> (\<exists>i<length pre. nat (ShardIndex (pre ! i)) = n \<and> Data_shard (pre ! i) \<noteq> None)"
    by auto
  have "filled ! m \<noteq> None \<longleftrightarrow>
          init ! m \<noteq> None
        \<or> (\<exists>i<length (x # pre). nat (ShardIndex ((x # pre) ! i)) = m \<and> Data_shard ((x # pre) ! i) \<noteq> None)"
    if m: "m < TotalShards" for m
  proof -
    have ex: "(\<exists>i<length (x # pre). nat (ShardIndex ((x # pre) ! i)) = m \<and> Data_shard ((x # pre) ! i) \<noteq> None)
        \<longleftrightarrow> (?n = m \<and> Data_shard x \<noteq> None)
          \<or> (\<exists>i<length pre. nat (ShardIndex (pre ! i)) = m \<and> Data_shard (pre ! i) \<noteq> None)"
      by (auto simp: less_Suc_eq_0_disj)
    have "?init ! m \<noteq> None \<longleftrightarrow> (if ?n = m then Data_shard x \<noteq> None else init ! m \<noteq> None)"
      using n by (auto simp: nth_list_update)
    then show ?thesis using f(3)[rule_format, OF m] ex x(3) by auto
  qed
  then show ?case using step f(1,2) by auto
qed


lemma TotalShards_6: "TotalShards = 6"
  by (simp add: TotalShards_def DataShards_def ParityShards_def)

lemma fill_loop_at:
  assumes "k < length shards" "\<forall>j<k. fits shards j"
    and "ShardIndex (shards ! k) < 0 \<or> 6 \<le> ShardIndex (shards ! k)
       \<or> (\<exists>i<k. ShardIndex (shards ! i) = ShardIndex (shards ! k) \<and> Data_shard (shards ! i) \<noteq> None)"
  shows "fill_loop shards (replicate TotalShards None) =
     (if ShardIndex (shards ! k) < 0 \<or> 6 \<le> ShardIndex (shards ! k)
      then Inl (InvalidShardIndex (ShardIndex (shards ! k)))
      else Inl (DuplicateShardIndex (ShardIndex (shards ! k))))"
proof -
  let ?pre = "take k shards"
  let ?rest = "shards ! k # drop (Suc k) shards"
  let ?init = "replicate TotalShards (None :: bytes option)"
  have lp: "length ?pre = k" using assms(1) by simp
  have nth: "?pre ! j = shards ! j" if "j < k" for j using that by simp
  have cond: "\<forall>j<length ?pre. 0 \<le> ShardIndex (?pre ! j) \<and> ShardIndex (?pre ! j) < int TotalShards
             \<and> ?init ! nat (ShardIndex (?pre ! j)) = None
             \<and> (\<forall>i<j. ShardIndex (?pre ! i) = ShardIndex (?pre ! j) \<longrightarrow> Data_shard (?pre ! i) = None)"
  proof (intro allI impI)
    fix j assume "j < length ?pre"
    then have j: "j < k" using lp by simp
    have f: "0 \<le> ShardIndex (shards ! j)" "ShardIndex (shards ! j) < 6"
      "\<forall>i<j. ShardIndex (shards ! i) = ShardIndex (shards ! j) \<longrightarrow> Data_shard (shards ! i) = None"
      using assms(2) j by (simp_all add: fits_def)
    have "\<forall>i<j. ShardIndex (?pre ! i) = ShardIndex (?pre ! j) \<longrightarrow> Data_shard (?pre ! i) = None"
    proof (intro allI impI)
      fix i assume i: "i < j" "ShardIndex (?pre ! i) = ShardIndex (?pre ! j)"
      then have "ShardIndex (shards ! i) = ShardIndex (shards ! j)" using j by simp
      then have "Data_shard (shards ! i) = None" using f(3) i(1) by simp
      then show "Data_shard (?pre ! i) = None" using i(1) j by simp
    qed
    moreover have "?init ! nat (ShardIndex (?pre ! j)) = None"
      using f j by (simp add: TotalShards_6)
    ultimately show "0 \<le> ShardIndex (?pre ! j) \<and> ShardIndex (?pre ! j) < int TotalShards
             \<and> ?init ! nat (ShardIndex (?pre ! j)) = None
             \<and> (\<forall>i<j. ShardIndex (?pre ! i) = ShardIndex (?pre ! j) \<longrightarrow> Data_shard (?pre ! i) = None)"
      using f j by (simp add: TotalShards_6)
  qed
  from fill_loop_prefix[OF cond, of ?rest]
  obtain filled where fl: "fill_loop (?pre @ ?rest) ?init = fill_loop ?rest filled"
      "length filled = TotalShards"
      "\<forall>n<TotalShards. filled ! n \<noteq> None \<longleftrightarrow>
          ?init ! n \<noteq> None
        \<or> (\<exists>i<length ?pre. nat (ShardIndex (?pre ! i)) = n \<and> Data_shard (?pre ! i) \<noteq> None)"
    by auto
  have sh: "?pre @ ?rest = shards"
    using assms(1) by (simp add: id_take_nth_drop[symmetric])
  show ?thesis
  proof (cases "ShardIndex (shards ! k) < 0 \<or> 6 \<le> ShardIndex (shards ! k)")
    case True
    then show ?thesis using fl(1) unfolding sh by (auto simp: TotalShards_6)
  next
    case False
    then obtain i where i: "i < k" "ShardIndex (shards ! i) = ShardIndex (shards ! k)"
        "Data_shard (shards ! i) \<noteq> None"
      using assms(3) by auto
    let ?n = "nat (ShardIndex (shards ! k))"
    have n: "?n < TotalShards" using False by (simp add: TotalShards_6 nat_less_iff)
    have "\<exists>i<length ?pre. nat (ShardIndex (?pre ! i)) = ?n \<and> Data_shard (?pre ! i) \<noteq> None"
      using i lp by (intro exI[of _ i]) simp
    then have "filled ! ?n \<noteq> None"
      using fl(3)[rule_format, OF n] by blast
    then show ?thesis using fl(1) False unfolding sh by (auto simp: TotalShards_6)
  qed
qed

lemma hd_shards: "4 \<le> length shards \<Longrightarrow> hd shards = shards ! 0" for shards :: "Shard list"
    by (cases shards) auto

lemma ReconstructChunk_insufficient: "length shards < 4 \<Longrightarrow>
      ReconstructChunk Sum256 New shards dataSize
        = Inl (InsufficientShards 4 (int (length shards)))"
    by (simp add: ReconstructChunk_def DataShards_def)

lemma ReconstructChunk_size: "4 \<le> length shards \<Longrightarrow> dataSize \<le> 0 \<Longrightarrow>
      ReconstructChunk Sum256 New shards dataSize = Inl InvalidDataSize"
    by (simp add: ReconstructChunk_def DataShards_def)

lemma ReconstructChunk_verify:
  assumes "4 \<le> length shards" "0 < dataSize"
  shows "ReconstructChunk Sum256 New shards dataSize =
     (case verify_loop Sum256 (ChunkIndex (shards ! 0)) shards of
        Some e \<Rightarrow> Inl e
      | None \<Rightarrow>
          (case New DataShards ParityShards of
             Inl e \<Rightarrow> Inl (EncoderFailed e)
           | Inr enc \<Rightarrow>
               (case fill_loop shards (replicate TotalShards None) of
                  Inl e \<Rightarrow> Inl e
                | Inr shardData \<Rightarrow>
                    (case Reconstruct enc shardData of
                       Inl e \<Rightarrow> Inl (ReconstructFailed e)
                     | Inr rebuilt \<Rightarrow>
                         (case Verify enc rebuilt of
                            Inl e \<Rightarrow> Inl (VerifyFailed e)
                          | Inr ok \<Rightarrow>
                              if \<not> ok then Inl VerificationMismatch
                              else
                                (case Join enc rebuilt dataSize of
                                   Inl e \<Rightarrow> Inl (JoinFailed e)
                                 | Inr buf \<Rightarrow> Inr buf))))))"
  using assms hd_shards[OF assms(1)] unfolding ReconstructChunk_def DataShards_def by simp

lemma ReconstructChunk_mixed:
  assumes "4 \<le> length shards" "0 < dataSize" "k < length shards" "\<forall>j<k. passes Sum256 shards j"
      "ChunkIndex (shards ! k) \<noteq> ChunkIndex (shards ! 0)"
  shows "ReconstructChunk Sum256 New shards dataSize = Inl MixedChunks"
proof -
  have pre: "\<forall>j<k. ChunkIndex (shards ! j) = ChunkIndex (shards ! 0)
           \<and> VerifyShard Sum256 (Data_shard (shards ! j)) (Hash_shard (shards ! j))"
    using assms(4) unfolding passes_def .
  have "verify_loop Sum256 (ChunkIndex (shards ! 0)) shards = Some MixedChunks"
    unfolding verify_loop_at[OF assms(3) pre] using assms(5) by simp
  then show ?thesis
    unfolding ReconstructChunk_verify[OF assms(1,2)] by simp
qed

lemma ReconstructChunk_hash:
  assumes "4 \<le> length shards" "0 < dataSize" "k < length shards" "\<forall>j<k. passes Sum256 shards j"
      "ChunkIndex (shards ! k) = ChunkIndex (shards ! 0)"
      "\<not> VerifyShard Sum256 (Data_shard (shards ! k)) (Hash_shard (shards ! k))"
  shows "ReconstructChunk Sum256 New shards dataSize
      = Inl (ShardVerificationFailed (ShardIndex (shards ! k)))"
proof -
  have pre: "\<forall>j<k. ChunkIndex (shards ! j) = ChunkIndex (shards ! 0)
           \<and> VerifyShard Sum256 (Data_shard (shards ! j)) (Hash_shard (shards ! j))"
    using assms(4) unfolding passes_def .
  have "verify_loop Sum256 (ChunkIndex (shards ! 0)) shards
      = Some (ShardVerificationFailed (ShardIndex (shards ! k)))"
    unfolding verify_loop_at[OF assms(3) pre] using assms(5,6) by simp
  then show ?thesis
    unfolding ReconstructChunk_verify[OF assms(1,2)] by simp
qed

lemma ReconstructChunk_fill:
  assumes "4 \<le> length shards" "0 < dataSize" "\<forall>j<length shards. passes Sum256 shards j"
      "New DataShards ParityShards = Inr enc"
  shows "ReconstructChunk Sum256 New shards dataSize =
     (case fill_loop shards (replicate TotalShards None) of
                  Inl e \<Rightarrow> Inl e
                | Inr shardData \<Rightarrow>
                    (case Reconstruct enc shardData of
                       Inl e \<Rightarrow> Inl (ReconstructFailed e)
                     | Inr rebuilt \<Rightarrow>
                         (case Verify enc rebuilt of
                            Inl e \<Rightarrow> Inl (VerifyFailed e)
                          | Inr ok \<Rightarrow>
                              if \<not> ok then Inl VerificationMismatch
                              else
                                (case Join enc rebuilt dataSize of
                                   Inl e \<Rightarrow> Inl (JoinFailed e)
                                 | Inr buf \<Rightarrow> Inr buf))))"
proof -
  have v: "verify_loop Sum256 (ChunkIndex (shards ! 0)) shards = None"
    unfolding verify_loop_None_iff using assms(3) by (auto simp: passes_def in_set_conv_nth)
  show ?thesis
    unfolding ReconstructChunk_verify[OF assms(1,2)] v assms(4) by simp
qed

lemma ReconstructChunk_invalid_index:
  assumes "4 \<le> length shards" "0 < dataSize" "\<forall>j<length shards. passes Sum256 shards j"
      "New DataShards ParityShards = Inr enc" "k < length shards" "\<forall>j<k. fits shards j"
      "ShardIndex (shards ! k) < 0 \<or> 6 \<le> ShardIndex (shards ! k)"
  shows "ReconstructChunk Sum256 New shards dataSize
             = Inl (InvalidShardIndex (ShardIndex (shards ! k)))"
proof -
  have "fill_loop shards (replicate TotalShards None)
      = Inl (InvalidShardIndex (ShardIndex (shards ! k)))"
    using fill_loop_at[OF assms(5,6)] assms(7) by auto
  then show ?thesis
    unfolding ReconstructChunk_fill[of shards dataSize Sum256 New enc, OF assms(1-4)] by simp
qed

lemma ReconstructChunk_duplicate:
  assumes "4 \<le> length shards" "0 < dataSize" "\<forall>j<length shards. passes Sum256 shards j"
      "New DataShards ParityShards = Inr enc" "k < length shards" "\<forall>j<k. fits shards j"
      "0 \<le> ShardIndex (shards ! k)" "ShardIndex (shards ! k) < 6"
      "\<exists>i<k. ShardIndex (shards ! i) = ShardIndex (shards ! k) \<and> Data_shard (shards ! i) \<noteq> None"
  shows "ReconstructChunk Sum256 New shards dataSize
             = Inl (DuplicateShardIndex (ShardIndex (shards ! k)))"
proof -
  have "fill_loop shards (replicate TotalShards None)
      = Inl (DuplicateShardIndex (ShardIndex (shards ! k)))"
    using fill_loop_at[OF assms(5,6)] assms(7,8,9) by auto
  then show ?thesis
    unfolding ReconstructChunk_fill[of shards dataSize Sum256 New enc, OF assms(1-4)] by simp
qed

text \<open>
  Claim C2, as the code has it. ReconstructChunk checks, in this order: that there are at
  least four shard records, else InsufficientShards; that \<open>dataSize\<close> is positive, else
  InvalidDataSize; then, shard by shard in the order of the list, that the shard's chunk
  index is the first shard's, else MixedChunks, and that its data verifies against its
  hash, else ShardVerificationFailed with its shard index: the first shard that fails
  one of the two decides the error. Only when every shard has passed is the encoder
  created and are the shards put into their slots, where, again in the order of the
  list, a shard index outside \<open>[0, 6)\<close> gives InvalidShardIndex and an index whose slot
  an earlier shard has filled with data gives DuplicateShardIndex. Each of these results
  is an error: no buffer is returned.
\<close>

theorem ReconstructChunk_checks:
  "(length shards < 4 \<longrightarrow>
      ReconstructChunk Sum256 New shards dataSize
        = Inl (InsufficientShards 4 (int (length shards))))
   \<and> (4 \<le> length shards \<and> dataSize \<le> 0 \<longrightarrow>
      ReconstructChunk Sum256 New shards dataSize = Inl InvalidDataSize)
   \<and> (4 \<le> length shards \<and> 0 < dataSize \<and> k < length shards
        \<and> (\<forall>j<k. passes Sum256 shards j) \<longrightarrow>
        (ChunkIndex (shards ! k) \<noteq> ChunkIndex (shards ! 0) \<longrightarrow>
           ReconstructChunk Sum256 New shards dataSize = Inl MixedChunks)
      \<and> (ChunkIndex (shards ! k) = ChunkIndex (shards ! 0)
           \<and> \<not> VerifyShard Sum256 (Data_shard (shards ! k)) (Hash_shard (shards ! k)) \<longrightarrow>
           ReconstructChunk Sum256 New shards dataSize
             = Inl (ShardVerificationFailed (ShardIndex (shards ! k)))))
   \<and> (4 \<le> length shards \<and> 0 < dataSize
        \<and> (\<forall>j<length shards. passes Sum256 shards j)
        \<and> New DataShards ParityShards = Inr enc
        \<and> k < length shards \<and> (\<forall>j<k. fits shards j) \<longrightarrow>
        (ShardIndex (shards ! k) < 0 \<or> 6 \<le> ShardIndex (shards ! k) \<longrightarrow>
           ReconstructChunk Sum256 New shards dataSize
             = Inl (InvalidShardIndex (ShardIndex (shards ! k))))
      \<and> (0 \<le> ShardIndex (shards ! k) \<and> ShardIndex (shards ! k) < 6
           \<and> (\<exists>i<k. ShardIndex (shards ! i) = ShardIndex (shards ! k)
                    \<and> Data_shard (shards ! i) \<noteq> None) \<longrightarrow>
           ReconstructChunk Sum256 New shards dataSize
             = Inl (DuplicateShardIndex (ShardIndex (shards ! k)))))"
  apply (intro conjI impI)
  subgoal by (rule ReconstructChunk_insufficient)
  subgoal by (elim conjE) (rule ReconstructChunk_size)
  subgoal by (elim conjE) (rule ReconstructChunk_mixed)
  subgoal by (elim conjE) (rule ReconstructChunk_hash)
  subgoal by (elim conjE) (rule ReconstructChunk_invalid_index)
  subgoal by (elim conjE) (rule ReconstructChunk_duplicate)
  done

text \<open>
  The chunk index check and the hash check are not two passes over the shards: with a
  shard of a wrong hash at position 1 and a shard of another chunk at position 2,
  ReconstructChunk fails with ShardVerificationFailed, not with MixedChunks.
\<close>

theorem ReconstructChunk_checks_counterexample:
  "ChunkIndex (interleaved_shards ! 2) \<noteq> ChunkIndex (interleaved_shards ! 0)
   \<and> ReconstructChunk (\<lambda>d. d) rs_New interleaved_shards 4 = Inl (ShardVerificationFailed 1)"
  by code_simp

theorem ReconstructChunk_checks_witness:
  "ReconstructChunk (\<lambda>d. d) rs_New (take 3 example_shards) 5 = Inl (InsufficientShards 4 3)
   \<and> ReconstructChunk (\<lambda>d. d) rs_New example_shards 0 = Inl InvalidDataSize
   \<and> ReconstructChunk (\<lambda>d. d) rs_New
        (take 2 example_shards @ [(example_shards ! 2)\<lparr>ChunkIndex := 1\<rparr>, example_shards ! 3]) 5
        = Inl MixedChunks
   \<and> ReconstructChunk (\<lambda>d. d) rs_New
        (take 2 example_shards @ [(example_shards ! 2)\<lparr>Hash_shard := ''0501''\<rparr>, example_shards ! 3]) 5
        = Inl (ShardVerificationFailed 2)
   \<and> ReconstructChunk (\<lambda>d. d) rs_New
        (take 3 example_shards @ [(example_shards ! 3)\<lparr>ShardIndex := 6\<rparr>]) 5
        = Inl (InvalidShardIndex 6)
   \<and> ReconstructChunk (\<lambda>d. d) rs_New
        (take 3 example_shards @ [(example_shards ! 3)\<lparr>ShardIndex := 1\<rparr>]) 5
        = Inl (DuplicateShardIndex 1)"
proof -
  let ?S = "\<lambda>d :: bytes. d"
  let ?enc = "\<lparr>Split = rs_Split 4 6, Encode = rs_Encode 4 6 rs_matrix,
          Reconstruct = rs_Reconstruct 4 6 rs_matrix, Verify = rs_Verify 4 6 rs_matrix,
          Join = rs_Join 4\<rparr>"
  note T = ReconstructChunk_checks[of _ ?S rs_New]
  have new: "rs_New DataShards ParityShards = Inr ?enc"
    by (simp add: DataShards_def ParityShards_def rs_New_4_2)
  have a: "ReconstructChunk ?S rs_New (take 3 example_shards) 5 = Inl (InsufficientShards 4 3)"
    using T[of "take 3 example_shards" 5, THEN conjunct1]
    by (simp add: example_shards_def)
  have b: "ReconstructChunk ?S rs_New example_shards 0 = Inl InvalidDataSize"
    using T[of example_shards 0, THEN conjunct2, THEN conjunct1]
    by (simp add: example_shards_def)
  let ?m = "take 2 example_shards @ [(example_shards ! 2)\<lparr>ChunkIndex := 1\<rparr>, example_shards ! 3]"
  have "passes ?S ?m 0 \<and> passes ?S ?m 1 \<and> ChunkIndex (?m ! 2) \<noteq> ChunkIndex (?m ! 0)
      \<and> length ?m = 4"
    by code_simp
  then have c: "ReconstructChunk ?S rs_New ?m 5 = Inl MixedChunks"
    using T[of ?m 5 2, THEN conjunct2, THEN conjunct2, THEN conjunct1]
    by (simp add: all_less_2)
  let ?h = "take 2 example_shards @ [(example_shards ! 2)\<lparr>Hash_shard := ''0501''\<rparr>, example_shards ! 3]"
  have "passes ?S ?h 0 \<and> passes ?S ?h 1 \<and> ChunkIndex (?h ! 2) = ChunkIndex (?h ! 0)
      \<and> \<not> VerifyShard ?S (Data_shard (?h ! 2)) (Hash_shard (?h ! 2))
      \<and> ShardIndex (?h ! 2) = 2 \<and> length ?h = 4"
    by code_simp
  then have d: "ReconstructChunk ?S rs_New ?h 5 = Inl (ShardVerificationFailed 2)"
    using T[of ?h 5 2, THEN conjunct2, THEN conjunct2, THEN conjunct1]
    by (simp add: all_less_2)
  let ?i = "take 3 example_shards @ [(example_shards ! 3)\<lparr>ShardIndex := 6\<rparr>]"
  have "passes ?S ?i 0 \<and> passes ?S ?i 1 \<and> passes ?S ?i 2 \<and> passes ?S ?i 3
      \<and> fits ?i 0 \<and> fits ?i 1 \<and> fits ?i 2
      \<and> ShardIndex (?i ! 3) = 6 \<and> length ?i = 4"
    by code_simp
  then have e: "ReconstructChunk ?S rs_New ?i 5 = Inl (InvalidShardIndex 6)"
    using T[of ?i 5 3 ?enc, THEN conjunct2, THEN conjunct2, THEN conjunct2] new
    by (simp add: all_less_3 all_less_4)
  let ?u = "take 3 example_shards @ [(example_shards ! 3)\<lparr>ShardIndex := 1\<rparr>]"
  have "passes ?S ?u 0 \<and> passes ?S ?u 1 \<and> passes ?S ?u 2 \<and> passes ?S ?u 3
      \<and> fits ?u 0 \<and> fits ?u 1 \<and> fits ?u 2
      \<and> ShardIndex (?u ! 3) = 1 \<and> ShardIndex (?u ! 1) = 1 \<and> Data_shard (?u ! 1) \<noteq> None
      \<and> length ?u = 4"
    by code_simp
  then have f: "ReconstructChunk ?S rs_New ?u 5 = Inl (DuplicateShardIndex 1)"
    using T[of ?u 5 3 ?enc, THEN conjunct2, THEN conjunct2, THEN conjunct2] new
    by (auto simp: all_less_3 all_less_4)
  show ?thesis
    using a b c d e f by simp
qed


section \<open>Tampered shards\<close>

lemma hexdigit_inj:
  assumes "hexdigit m = hexdigit n" "m < 16" "n < 16"
  shows "m = n"
proof -
  have d: "distinct ''0123456789abcdef''" by simp
  have l: "length ''0123456789abcdef'' = 16" by simp
  show ?thesis
    using assms nth_eq_iff_index_eq[OF d, of m n] unfolding hexdigit_def l by simp
qed

lemma byte_digits_inj:
  fixes x y :: byte
  assumes "hexdigit (unat x div 16) = hexdigit (unat y div 16)"
    and "hexdigit (unat x mod 16) = hexdigit (unat y mod 16)"
  shows "x = y"
proof -
  have "unat x < 2 ^ LENGTH(8)" by (rule unsigned_less)
  then have bx: "unat x < 256" by simp
  have "unat y < 2 ^ LENGTH(8)" by (rule unsigned_less)
  then have by': "unat y < 256" by simp
  have "unat x div 16 = unat y div 16"
    using assms(1) bx by' by (intro hexdigit_inj) auto
  moreover have "unat x mod 16 = unat y mod 16"
    using assms(2) by (intro hexdigit_inj) auto
  ultimately have "unat x = unat y"
    by (metis div_mult_mod_eq)
  then show ?thesis by (simp add: word_unat_eq_iff)
qed

lemma EncodeToString_inj: "EncodeToString a = EncodeToString b \<Longrightarrow> a = b"
proof (induction a arbitrary: b)
  case Nil
  then show ?case by (cases b) (simp_all add: EncodeToString_def)
next
  case (Cons x a)
  then obtain y b' where b: "b = y # b'"
    by (cases b) (simp_all add: EncodeToString_def)
  have "x = y" and "EncodeToString a = EncodeToString b'"
    using Cons.prems b byte_digits_inj[of x y] by (simp_all add: EncodeToString_def)
  then show ?case using Cons.IH b by simp
qed

lemma ShardChunk_shards:
  assumes "ShardChunk S New chunk ct = Inr produced"
  shows "length produced = TotalShards"
    and "i < TotalShards \<Longrightarrow> ChunkIndex (produced ! i) = Index chunk"
    and "i < TotalShards \<Longrightarrow> ShardIndex (produced ! i) = int i"
    and "i < TotalShards \<Longrightarrow> Hash_shard (produced ! i) = EncodeToString (S (bytes_of (Data_shard (produced ! i))))"
    and "i < TotalShards \<Longrightarrow> Size_shard (produced ! i) = int (length (bytes_of (Data_shard (produced ! i))))"
  using assms
  by (auto simp: ShardChunk_def split: if_splits sum.splits)

text \<open>
  Claim C3. Let ShardChunk have produced the shards of a chunk, and let the data of
  shard \<open>i\<close> be replaced by data with another SHA-256 digest, its hash field left as it
  was. Then ReconstructChunk on any four or more shards that are the altered shard or
  shards as produced, among them the altered one, with a positive size, fails with
  ShardVerificationFailed for shard \<open>i\<close>, whatever encoder it is given.
\<close>

theorem ReconstructChunk_tamper:
  assumes "ShardChunk Sum256 New chunk encryptedData = Inr produced"
    and "i < TotalShards"
    and "Sum256 (bytes_of tampered) \<noteq> Sum256 (bytes_of (Data_shard (produced ! i)))"
    and "4 \<le> length sel"
    and "set sel \<subseteq> insert ((produced ! i)\<lparr>Data_shard := tampered\<rparr>) (set produced)"
    and "(produced ! i)\<lparr>Data_shard := tampered\<rparr> \<in> set sel"
    and "0 < dataSize"
  shows "ReconstructChunk Sum256 New' sel dataSize = Inl (ShardVerificationFailed (int i))"
proof -
  let ?t = "(produced ! i)\<lparr>Data_shard := tampered\<rparr>"
  note P = ShardChunk_shards[OF assms(1)]
  have good: "ChunkIndex s = Index chunk \<and> VerifyShard Sum256 (Data_shard s) (Hash_shard s)"
    if mem: "s \<in> set produced" for s
  proof -
    obtain j where "j < length produced" "s = produced ! j"
      using mem by (auto simp: in_set_conv_nth)
    then show ?thesis using P(1) P(2)[of j] P(4)[of j] by (simp add: VerifyShard_def)
  qed
  have t: "ChunkIndex ?t = Index chunk" "ShardIndex ?t = int i"
      "\<not> VerifyShard Sum256 (Data_shard ?t) (Hash_shard ?t)"
    using P(2)[OF assms(2)] P(3)[OF assms(2)] P(4)[OF assms(2)] assms(3) EncodeToString_inj
    by (auto simp: VerifyShard_def)
  have ci: "ChunkIndex s = Index chunk" if "s \<in> set sel" for s
    using that assms(5) good t(1) by auto
  obtain k where k: "k < length sel" "sel ! k = ?t" "\<forall>j<k. sel ! j \<noteq> ?t"
  proof -
    let ?P = "\<lambda>k. k < length sel \<and> sel ! k = ?t"
    have "\<exists>k. ?P k" using assms(6) by (auto simp: in_set_conv_nth)
    then have "?P (LEAST k. ?P k)" by (rule LeastI_ex)
    moreover have "\<forall>j<(LEAST k. ?P k). sel ! j \<noteq> ?t"
      using not_less_Least[of _ ?P] calculation by (metis order.strict_trans)
    ultimately show ?thesis using that by blast
  qed
  have "sel ! 0 \<in> set sel"
    using assms(4) by (intro nth_mem) auto
  then have s0: "ChunkIndex (sel ! 0) = Index chunk"
    by (rule ci)
  have pre: "\<forall>j<k. passes Sum256 sel j"
  proof (intro allI impI)
    fix j assume j: "j < k"
    then have "sel ! j \<in> set sel" "sel ! j \<noteq> ?t" using k by auto
    then have "sel ! j \<in> set produced" using assms(5) by auto
    then show "passes Sum256 sel j" using good s0 by (simp add: passes_def)
  qed
  have "ReconstructChunk Sum256 New' sel dataSize
      = Inl (ShardVerificationFailed (ShardIndex (sel ! k)))"
    using k(2) t s0 by (intro ReconstructChunk_hash[OF assms(4,7) k(1) pre]) simp_all
  then show ?thesis using k(2) t(2) by simp
qed

theorem ReconstructChunk_tamper_witness:
  "ReconstructChunk (\<lambda>d. d) rs_New
     [example_shards ! 0, example_shards ! 1,
      (example_shards ! 4)\<lparr>Data_shard := Some [100, 70]\<rparr>, example_shards ! 5] 5
   = Inl (ShardVerificationFailed 4)"
  using ReconstructChunk_tamper[OF ShardChunk_example,
      where i = 4 and tampered = "Some [100, 70]" and dataSize = 5 and New' = rs_New
        and sel = "[example_shards ! 0, example_shards ! 1,
                    (example_shards ! 4)\<lparr>Data_shard := Some [100, 70]\<rparr>, example_shards ! 5]"]
  by (simp add: TotalShards_6 example_shards_def bytes_of_def)


section \<open>The encryption round trip\<close>

text \<open>
  Claim C7. Let the key have 32 bytes, let NewX accept it, and let the cipher it returns
  open what it seals: for the nonce read from the random source, \<open>Seal\<close> appends to its
  \<^verbatim>\<open>dst\<close> a text that \<open>Open\<close> with the same nonce turns back into the plaintext. Then
  EncryptChunk returns a buffer, and DecryptChunk of that buffer returns the plaintext,
  whatever the random bytes are and also for the empty plaintext.
\<close>

theorem DecryptChunk_EncryptChunk:
  assumes "length key = 32"
    and "NewX key = Some a"
    and "Seal a (map f [0..<NonceSize a]) (map f [0..<NonceSize a]) plaintext []
           = map f [0..<NonceSize a] @ sealed"
    and "Open a [] (map f [0..<NonceSize a]) sealed [] = Some plaintext"
  shows "\<exists>ciphertext.
           EncryptChunk NewX (Entropy f) plaintext key = Inr ciphertext
         \<and> DecryptChunk NewX ciphertext key = Inr plaintext"
proof -
  let ?nonce = "map f [0..<NonceSize a]"
  have e: "EncryptChunk NewX (Entropy f) plaintext key = Inr (?nonce @ sealed)"
    using assms(1,2,3) by (simp add: EncryptChunk_def KeySize_def Read_def)
  have d: "DecryptChunk NewX (?nonce @ sealed) key = Inr plaintext"
    using assms(1,2,4) by (simp add: DecryptChunk_def KeySize_def)
  show ?thesis using e d by blast
qed

theorem DecryptChunk_EncryptChunk_witness:
  "(\<exists>ciphertext.
      EncryptChunk demo_aead (Entropy of_nat) [1, 2, 3] (replicate 32 7) = Inr ciphertext
    \<and> DecryptChunk demo_aead ciphertext (replicate 32 7) = Inr [1, 2, 3])
   \<and> (\<exists>ciphertext.
      EncryptChunk demo_aead (Entropy of_nat) [] (replicate 32 7) = Inr ciphertext
    \<and> DecryptChunk demo_aead ciphertext (replicate 32 7) = Inr [])"
  using DecryptChunk_EncryptChunk[of "replicate 32 7" demo_aead "demo_cipher 7" of_nat
      "[1, 2, 3]" "[8, 9, 10] @ replicate 16 0"]
    DecryptChunk_EncryptChunk[of "replicate 32 7" demo_aead "demo_cipher 7" of_nat
      "[]" "replicate 16 0"]
  by (simp add: demo_aead_def demo_cipher_def upt_rec)

text \<open>
  Claim C10. Let the key have 32 bytes, let NewX accept it, and let the cipher be
  XChaCha20-Poly1305 in its sizes: a nonce of 24 bytes, and a sealed text 16 bytes longer
  than the plaintext, appended to \<^verbatim>\<open>dst\<close>. Then EncryptChunk returns a buffer of
  \<open>length plaintext + 40\<close> bytes, which is longer than the plaintext and not shorter than
  the nonce, so DecryptChunk does not refuse it as too short.
\<close>

theorem EncryptChunk_length:
  assumes "length key = 32"
    and "NewX key = Some a"
    and "NonceSize a = 24"
    and "length (Seal a (map f [0..<24]) (map f [0..<24]) plaintext [])
           = length (map f [0..<24]) + length plaintext + 16"
  shows "\<exists>ciphertext.
           EncryptChunk NewX (Entropy f) plaintext key = Inr ciphertext
         \<and> length ciphertext = length plaintext + 40
         \<and> length plaintext < length ciphertext
         \<and> NonceSize a \<le> length ciphertext
         \<and> DecryptChunk NewX ciphertext key
             \<noteq> Inl (CiphertextTooShort (NonceSize a) (length ciphertext))"
proof -
  let ?ct = "Seal a (map f [0..<24]) (map f [0..<24]) plaintext []"
  have e: "EncryptChunk NewX (Entropy f) plaintext key = Inr ?ct"
    using assms(1,2,3) by (simp add: EncryptChunk_def KeySize_def Read_def)
  have l: "length ?ct = length plaintext + 40"
    using assms(4) by simp
  have d: "DecryptChunk NewX ?ct key \<noteq> Inl (CiphertextTooShort (NonceSize a) (length ?ct))"
    using assms(1,2,3) l by (simp add: DecryptChunk_def KeySize_def split: option.split)
  show ?thesis using e l d assms(3) by simp
qed

theorem EncryptChunk_length_witness:
  "\<exists>ciphertext.
      EncryptChunk demo_aead (Entropy of_nat) [] (replicate 32 7) = Inr ciphertext
    \<and> length ciphertext = 40"
proof -
  have "\<exists>ciphertext.
      EncryptChunk demo_aead (Entropy of_nat) [] (replicate 32 7) = Inr ciphertext
    \<and> length ciphertext = length ([] :: bytes) + 40
    \<and> length ([] :: bytes) < length ciphertext
    \<and> NonceSize (demo_cipher 7) \<le> length ciphertext
    \<and> DecryptChunk demo_aead ciphertext (replicate 32 7)
         \<noteq> Inl (CiphertextTooShort (NonceSize (demo_cipher 7)) (length ciphertext))"
    by (rule EncryptChunk_length[of "replicate 32 7" demo_aead "demo_cipher 7" of_nat "[]"])
      (simp_all add: demo_aead_def demo_cipher_def)
  then show ?thesis by auto
qed


section \<open>The farmers of a chunk\<close>













section \<open>The field of 256 elements\<close>

lemma xtime_xor: "xtime (a XOR b) = xtime a XOR xtime b"
proof -
  have e: "(x XOR c) XOR (y XOR c) = x XOR y" for x y c :: byte
    by (metis xor.assoc xor.commute xor_self_eq xor.right_neutral)
  show ?thesis
    by (cases "bit a 7"; cases "bit b 7")
       (simp_all add: xtime_def bit_xor_iff push_bit_xor e xor.assoc xor.commute xor.left_commute)
qed

lemma gmul_xor_right: "gmul n a (b XOR c) = gmul n a b XOR gmul n a c"
proof (induction n arbitrary: a b c)
  case 0
  show ?case by simp
next
  case (Suc n)
  have e: "(x XOR p) XOR (y XOR q) = (x XOR y) XOR (p XOR q)" for x y p q :: byte
    by (simp add: xor.assoc xor.left_commute)
  show ?case
    by (cases "bit a 0") (simp_all add: Suc xtime_xor e)
qed

lemma gmul_xor_left: "gmul n (a XOR a') b = gmul n a b XOR gmul n a' b"
proof (induction n arbitrary: a a' b)
  case 0
  show ?case by simp
next
  case (Suc n)
  have e: "(x XOR p) XOR (y XOR q) = (x XOR y) XOR (p XOR q)" for x y p q :: byte
    by (simp add: xor.assoc xor.left_commute)
  show ?case
    by (cases "bit a 0"; cases "bit a' 0") (simp_all add: Suc drop_bit_xor bit_xor_iff e xor.assoc xor.commute xor.left_commute)
qed

lemma gmul_zero_left: "gmul n 0 b = 0"
  by (induction n arbitrary: b) simp_all

lemma gmul_zero_right: "gmul n a 0 = 0"
  by (induction n arbitrary: a) (simp_all add: xtime_def)

lemma galMultiply_xor_right: "galMultiply a (b XOR c) = galMultiply a b XOR galMultiply a c"
  by (simp add: galMultiply_def gmul_xor_right)

lemma galMultiply_xor_left: "galMultiply (a XOR a') b = galMultiply a b XOR galMultiply a' b"
  by (simp add: galMultiply_def gmul_xor_left)

lemma galMultiply_0_left: "galMultiply 0 b = 0"
  by (simp add: galMultiply_def gmul_zero_left)

lemma galMultiply_0_right: "galMultiply a 0 = 0"
  by (simp add: galMultiply_def gmul_zero_right)

lemma galMultiply_1_left: "galMultiply 1 b = b"
  by (simp add: galMultiply_def eval_nat_numeral gmul_zero_left)

lemma allones: "(255 :: byte) = - 1"
  by simp

lemma byte_decompose:
  "(x::byte) = (x AND 1) XOR (x AND 2) XOR (x AND 4) XOR (x AND 8) XOR (x AND 16) XOR (x AND 32) XOR (x AND 64) XOR (x AND 128)"
proof -
  have "(x AND 1) XOR (x AND 2) XOR (x AND 4) XOR (x AND 8) XOR (x AND 16) XOR (x AND 32) XOR (x AND 64) XOR (x AND 128)
    = x AND (1 XOR 2 XOR 4 XOR 8 XOR 16 XOR 32 XOR 64 XOR 128)"
    by (simp only: bit.conj_xor_distrib)
  also have "\<dots> = x AND 255" by simp
  also have "\<dots> = x" by (simp add: allones)
  finally show ?thesis by simp
qed

lemma and_bit_cases: "(x::byte) AND 2 ^ k = 0 \<or> x AND 2 ^ k = 2 ^ k"
proof (cases "bit x k")
  case False
  then show ?thesis by (simp add: and_exp_eq_0_iff_not_bit)
next
  case True
  have "x AND 2 ^ k = 2 ^ k"
    by (rule bit_eqI) (use True in \<open>auto simp: bit_and_iff bit_exp_iff\<close>)
  then show ?thesis by simp
qed

lemma additive_byte:
  fixes f :: "byte \<Rightarrow> byte"
  assumes add: "\<And>x y. f (x XOR y) = f x XOR f y"
    and basis: "f 1 = 0" "f 2 = 0" "f 4 = 0" "f 8 = 0" "f 16 = 0" "f 32 = 0" "f 64 = 0" "f 128 = 0"
  shows "f x = 0"
proof -
  have z: "f 0 = 0" using add[of 0 0] by simp
  have m: "f (x AND 2 ^ k) = 0" if "f (2 ^ k) = 0" for k
    using and_bit_cases[of x k] that z by auto
  have "f (x AND 1) = 0" using m[of 0] basis by simp
  moreover have "f (x AND 2) = 0" using m[of 1] basis by simp
  moreover have "f (x AND 4) = 0" using m[of 2] basis by simp
  moreover have "f (x AND 8) = 0" using m[of 3] basis by simp
  moreover have "f (x AND 16) = 0" using m[of 4] basis by simp
  moreover have "f (x AND 32) = 0" using m[of 5] basis by simp
  moreover have "f (x AND 64) = 0" using m[of 6] basis by simp
  moreover have "f (x AND 128) = 0" using m[of 7] basis by simp
  ultimately have "f ((x AND 1) XOR (x AND 2) XOR (x AND 4) XOR (x AND 8) XOR (x AND 16) XOR (x AND 32) XOR (x AND 64) XOR (x AND 128)) = 0"
    by (simp add: add)
  then show ?thesis using byte_decompose[of x] by simp
qed

lemma assoc_basis: "list_all assoc_at (List.product basis8 (List.product basis8 basis8))"
  by code_simp

lemma xor_eq_zero: "(a::byte) XOR b = 0 \<longleftrightarrow> a = b"
proof
  assume h: "a XOR b = 0"
  have "a = (a XOR b) XOR b" by (simp add: xor.assoc)
  then show "a = b" unfolding h by simp
next
  assume "a = b" then show "a XOR b = 0" by simp
qed

lemma additive_basis:
  fixes f :: "byte \<Rightarrow> byte"
  assumes "\<And>x y. f (x XOR y) = f x XOR f y" and "\<forall>k \<in> set basis8. f k = 0"
  shows "f x = 0"
proof (rule additive_byte[of f])
  show "f (x XOR y) = f x XOR f y" for x y by (rule assms(1))
qed (use assms(2) in \<open>simp_all add: basis8_def\<close>)

lemma assoc_basis_all:
  assumes "a \<in> set basis8" "b \<in> set basis8" "c \<in> set basis8"
  shows "galMultiply a (galMultiply b c) = galMultiply (galMultiply a b) c"
proof -
  have "(a, b, c) \<in> set (List.product basis8 (List.product basis8 basis8))"
    using assms by simp
  then have "assoc_at (a, b, c)"
    using assoc_basis unfolding list_all_iff by blast
  then show ?thesis by simp
qed

lemma x4: "(p XOR q) XOR (r XOR s) = (p XOR r) XOR (q XOR s)" for p q r s :: byte
  by (simp add: xor.assoc xor.left_commute)

lemma assoc_1:
  assumes "a \<in> set basis8" "b \<in> set basis8"
  shows "galMultiply a (galMultiply b c) = galMultiply (galMultiply a b) c"
proof -
  let ?f = "\<lambda>c. galMultiply a (galMultiply b c) XOR galMultiply (galMultiply a b) c"
  have "?f c = 0"
  proof (rule additive_basis[of ?f])
    show "?f (x XOR y) = ?f x XOR ?f y" for x y
      by (simp only: galMultiply_xor_right x4)
    show "\<forall>k \<in> set basis8. ?f k = 0"
    proof
      fix k assume "k \<in> set basis8"
      from assoc_basis_all[OF assms this] show "?f k = 0" by (simp only: xor_eq_zero)
    qed
  qed
  then show ?thesis by (simp only: xor_eq_zero)
qed

lemma assoc_2:
  assumes "a \<in> set basis8"
  shows "galMultiply a (galMultiply b c) = galMultiply (galMultiply a b) c"
proof -
  let ?f = "\<lambda>b. galMultiply a (galMultiply b c) XOR galMultiply (galMultiply a b) c"
  have "?f b = 0"
  proof (rule additive_basis[of ?f])
    show "?f (x XOR y) = ?f x XOR ?f y" for x y
      by (simp only: galMultiply_xor_right galMultiply_xor_left x4)
    show "\<forall>k \<in> set basis8. ?f k = 0"
    proof
      fix k assume "k \<in> set basis8"
      from assoc_1[OF assms this] show "?f k = 0" by (simp only: xor_eq_zero)
    qed
  qed
  then show ?thesis by (simp only: xor_eq_zero)
qed

lemma galMultiply_assoc:
  "galMultiply a (galMultiply b c) = galMultiply (galMultiply a b) c"
proof -
  let ?f = "\<lambda>a. galMultiply a (galMultiply b c) XOR galMultiply (galMultiply a b) c"
  have "?f a = 0"
  proof (rule additive_basis[of ?f])
    show "?f (x XOR y) = ?f x XOR ?f y" for x y
      by (simp only: galMultiply_xor_right galMultiply_xor_left x4)
    show "\<forall>k \<in> set basis8. ?f k = 0"
    proof
      fix k assume "k \<in> set basis8"
      from assoc_2[OF this] show "?f k = 0" by (simp only: xor_eq_zero)
    qed
  qed
  then show ?thesis by (simp only: xor_eq_zero)
qed


section \<open>Decoding with four rows of the coding matrix\<close>

lemma dot_Nil: "dot [] ys = 0" "dot xs [] = 0"
  by (simp_all add: dot_def)

lemma dot_Cons: "dot (x # xs) (y # ys) = galMultiply x y XOR dot xs ys"
  by (simp add: dot_def)

lemma dot4_assoc:
  "dot [a0, a1, a2, a3]
     [dot [b00, b01, b02, b03] [d0, d1, d2, d3],
      dot [b10, b11, b12, b13] [d0, d1, d2, d3],
      dot [b20, b21, b22, b23] [d0, d1, d2, d3],
      dot [b30, b31, b32, b33] [d0, d1, d2, d3]]
   = dot [dot [a0, a1, a2, a3] [b00, b10, b20, b30],
          dot [a0, a1, a2, a3] [b01, b11, b21, b31],
          dot [a0, a1, a2, a3] [b02, b12, b22, b32],
          dot [a0, a1, a2, a3] [b03, b13, b23, b33]]
       [d0, d1, d2, d3]"
  by (simp add: dot_Cons dot_Nil galMultiply_xor_left galMultiply_xor_right galMultiply_assoc
        galMultiply_0_left galMultiply_0_right xor.assoc xor.commute xor.left_commute)

lemma decodes_1:
  "list_all (decodes rs_matrix) [[0, 1, 2, 3], [0, 1, 2, 4], [0, 1, 2, 5]]"
  by code_simp

lemma decodes_2:
  "list_all (decodes rs_matrix) [[0, 1, 3, 4], [0, 1, 3, 5], [0, 1, 4, 5]]"
  by code_simp

lemma decodes_3:
  "list_all (decodes rs_matrix) [[0, 2, 3, 4], [0, 2, 3, 5], [0, 2, 4, 5]]"
  by code_simp

lemma decodes_4:
  "list_all (decodes rs_matrix) [[0, 3, 4, 5], [1, 2, 3, 4], [1, 2, 3, 5]]"
  by code_simp

lemma decodes_5:
  "list_all (decodes rs_matrix) [[1, 2, 4, 5], [1, 3, 4, 5], [2, 3, 4, 5]]"
  by code_simp

lemma decodes_all: "list_all (decodes rs_matrix) valid_sets"
  unfolding valid_sets_def using decodes_1 decodes_2 decodes_3 decodes_4 decodes_5 by simp

lemma len4: "length xs = 4 \<Longrightarrow> \<exists>a b c d. xs = [a, b, c, d]"
  by (simp add: eval_nat_numeral length_Suc_conv) blast

lemma dot_unit:
  "dot [1, 0, 0, 0] [d0, d1, d2, d3] = d0"
  "dot [0, 1, 0, 0] [d0, d1, d2, d3] = d1"
  "dot [0, 0, 1, 0] [d0, d1, d2, d3] = d2"
  "dot [0, 0, 0, 1] [d0, d1, d2, d3] = d3"
  by (simp_all add: dot_Cons dot_Nil galMultiply_1_left galMultiply_0_left)

lemma valid_sets_props:
  assumes "V \<in> set valid_sets"
  shows "length V = 4" "\<forall>v \<in> set V. v < 6"
  using assms by (auto simp: valid_sets_def)

lemma rs_matrix_row: "v < 6 \<Longrightarrow> length (rs_matrix ! v) = 4"
  by (auto simp: rs_matrix_def less_Suc_eq eval_nat_numeral)

lemma decode_row:
  assumes V: "V \<in> set valid_sets"
    and inv: "Invert (map (\<lambda>i. rs_matrix ! i) V) = Some dec"
    and i: "i < 4"
  shows "dot (dec ! i) (map (\<lambda>v. dot (rs_matrix ! v) [d0, d1, d2, d3]) V) = [d0, d1, d2, d3] ! i"
proof -
  have "decodes rs_matrix V"
    using decodes_all V by (simp add: list_all_iff)
  then have dec: "length dec = 4" "\<forall>r \<in> set dec. length r = 4"
    and prod: "Multiply dec (map (\<lambda>i. rs_matrix ! i) V) = identityMatrix 4"
    using inv by (simp_all add: list_all_iff)
  obtain v0 v1 v2 v3 where Vl: "V = [v0, v1, v2, v3]"
    using len4[OF valid_sets_props(1)[OF V]] by blast
  have vs: "v0 < 6" "v1 < 6" "v2 < 6" "v3 < 6"
    using valid_sets_props(2)[OF V] Vl by simp_all
  obtain b00 b01 b02 b03 where B0: "rs_matrix ! v0 = [b00, b01, b02, b03]"
    using len4[OF rs_matrix_row[OF vs(1)]] by blast
  obtain b10 b11 b12 b13 where B1: "rs_matrix ! v1 = [b10, b11, b12, b13]"
    using len4[OF rs_matrix_row[OF vs(2)]] by blast
  obtain b20 b21 b22 b23 where B2: "rs_matrix ! v2 = [b20, b21, b22, b23]"
    using len4[OF rs_matrix_row[OF vs(3)]] by blast
  obtain b30 b31 b32 b33 where B3: "rs_matrix ! v3 = [b30, b31, b32, b33]"
    using len4[OF rs_matrix_row[OF vs(4)]] by blast
  have "dec ! i \<in> set dec" using i dec(1) by simp
  then have "length (dec ! i) = 4" using dec(2) by blast
  then obtain a0 a1 a2 a3 where A: "dec ! i = [a0, a1, a2, a3]"
    using len4 by blast
  have four: "[0..<4] = [0, 1, 2, 3]" by (simp add: upt_rec)
  have "Multiply dec (map (\<lambda>i. rs_matrix ! i) V) ! i = identityMatrix 4 ! i"
    using prod by simp
  then have row: "[dot [a0, a1, a2, a3] [b00, b10, b20, b30],
          dot [a0, a1, a2, a3] [b01, b11, b21, b31],
          dot [a0, a1, a2, a3] [b02, b12, b22, b32],
          dot [a0, a1, a2, a3] [b03, b13, b23, b33]] = identityMatrix 4 ! i"
    using i dec(1) by (simp add: Multiply_def Vl B0 B1 B2 B3 A four)
  have "dot (dec ! i) (map (\<lambda>v. dot (rs_matrix ! v) [d0, d1, d2, d3]) V)
      = dot (identityMatrix 4 ! i) [d0, d1, d2, d3]"
    unfolding row[symmetric] by (simp add: Vl B0 B1 B2 B3 A dot4_assoc)
  also have "\<dots> = [d0, d1, d2, d3] ! i"
    using i by (auto simp: identityMatrix_def four dot_unit less_Suc_eq eval_nat_numeral)
  finally show ?thesis .
qed


section \<open>The encoder on the shards of a buffer\<close>

lemma upt_6: "[0..<6] = [0, 1, 2, 3, 4, 5]"
  by (simp add: upt_rec)

lemma upt_4: "[0..<4] = [0, 1, 2, 3]"
  by (simp add: upt_rec)

lemma take4_valid:
  "4 \<le> length (filter P [0..<6]) \<Longrightarrow> take 4 (filter P [0..<6]) \<in> set valid_sets"
  unfolding upt_6
  by (cases "P 0"; cases "P 1"; cases "P 2"; cases "P 3"; cases "P 4"; cases "P 5";
      simp add: valid_sets_def)

lemma codeSomeShards_length: "length (codeSomeShards rows inputs n) = length rows"
  by (simp add: codeSomeShards_def)

lemma codeSomeShards_nth:
  "r < length rows \<Longrightarrow>
     codeSomeShards rows inputs n ! r
       = map (\<lambda>pos. dot (rows ! r) (map (\<lambda>inp. inp ! pos) inputs)) [0..<n]"
  by (simp add: codeSomeShards_def)

lemma codeSomeShards_single:
  "hd (codeSomeShards [row] inputs n)
     = map (\<lambda>pos. dot row (map (\<lambda>inp. inp ! pos) inputs)) [0..<n]"
  by (simp add: codeSomeShards_def)

lemma rs_matrix_length: "length rs_matrix = 6"
  by (simp add: rs_matrix_def)

lemma codeword_length: "length data = 4 \<Longrightarrow> length (codeword data n) = 6"
  by (simp add: codeword_def codeSomeShards_length rs_matrix_length)

lemma codeword_data: "length data = 4 \<Longrightarrow> v < 4 \<Longrightarrow> codeword data n ! v = data ! v"
  by (simp add: codeword_def nth_append)

lemma codeword_parity:
  assumes "length data = 4" "4 \<le> v" "v < 6"
  shows "codeword data n ! v
       = map (\<lambda>pos. dot (rs_matrix ! v) (map (\<lambda>inp. inp ! pos) data)) [0..<n]"
proof -
  have "codeword data n ! v = codeSomeShards (drop 4 rs_matrix) data n ! (v - 4)"
    using assms by (simp add: codeword_def nth_append)
  also have "\<dots> = map (\<lambda>pos. dot (drop 4 rs_matrix ! (v - 4)) (map (\<lambda>inp. inp ! pos) data)) [0..<n]"
    using assms by (intro codeSomeShards_nth) (simp add: rs_matrix_length)
  also have "drop 4 rs_matrix ! (v - 4) = rs_matrix ! v"
    using assms by (simp add: rs_matrix_length)
  finally show ?thesis .
qed

lemma codeword_row_length:
  assumes "length data = 4" "\<forall>d \<in> set data. length d = n" "v < 6"
  shows "length (codeword data n ! v) = n"
proof (cases "v < 4")
  case True
  then show ?thesis using assms by (simp add: codeword_data)
next
  case False
  then show ?thesis using assms by (simp add: codeword_parity)
qed

lemma codeword_nth_pos:
  assumes "length data = 4" "\<forall>d \<in> set data. length d = n" "v < 6" "pos < n"
  shows "codeword data n ! v ! pos = dot (rs_matrix ! v) (map (\<lambda>d. d ! pos) data)"
proof (cases "v < 4")
  case True
  obtain a b c d where data: "data = [a, b, c, d]"
    using len4[OF assms(1)] by blast
  have "v = 0 \<or> v = 1 \<or> v = 2 \<or> v = 3" using True by auto
  then show ?thesis
    using assms(1) by (auto simp: codeword_data data rs_matrix_def dot_unit)
next
  case False
  then show ?thesis using assms by (simp add: codeword_parity)
qed

lemma recover:
  assumes "length data = 4" "\<forall>d \<in> set data. length d = n"
    and V: "V \<in> set valid_sets"
    and inv: "Invert (map (\<lambda>i. rs_matrix ! i) V) = Some dec"
    and i: "i < 4"
  shows "hd (codeSomeShards [dec ! i] (map (\<lambda>v. codeword data n ! v) V) n) = data ! i"
proof (rule nth_equalityI)
  show "length (hd (codeSomeShards [dec ! i] (map (\<lambda>v. codeword data n ! v) V) n))
      = length (data ! i)"
    using assms(1,2) i by (simp add: codeSomeShards_single)
next
  fix pos assume "pos < length (hd (codeSomeShards [dec ! i] (map (\<lambda>v. codeword data n ! v) V) n))"
  then have pos: "pos < n" by (simp add: codeSomeShards_single)
  obtain a b c d where data: "data = [a, b, c, d]"
    using len4[OF assms(1)] by blast
  have "hd (codeSomeShards [dec ! i] (map (\<lambda>v. codeword data n ! v) V) n) ! pos
      = dot (dec ! i) (map (\<lambda>v. codeword data n ! v ! pos) V)"
    using pos by (simp add: codeSomeShards_single o_def)
  also have "map (\<lambda>v. codeword data n ! v ! pos) V
      = map (\<lambda>v. dot (rs_matrix ! v) [a ! pos, b ! pos, c ! pos, d ! pos]) V"
  proof (rule map_cong[OF refl])
    fix v assume "v \<in> set V"
    then have "v < 6" using valid_sets_props(2)[OF V] by blast
    then show "codeword data n ! v ! pos = dot (rs_matrix ! v) [a ! pos, b ! pos, c ! pos, d ! pos]"
      using codeword_nth_pos[OF assms(1,2) _ pos, of v] by (simp add: data)
  qed
  also have "dot (dec ! i) (map (\<lambda>v. dot (rs_matrix ! v) [a ! pos, b ! pos, c ! pos, d ! pos]) V)
      = [a ! pos, b ! pos, c ! pos, d ! pos] ! i"
    by (rule decode_row[OF V inv i])
  also have "\<dots> = data ! i ! pos"
    using i by (auto simp: data less_Suc_eq eval_nat_numeral)
  finally show "hd (codeSomeShards [dec ! i] (map (\<lambda>v. codeword data n ! v) V) n) ! pos
      = data ! i ! pos" .
qed

lemma shardSize_some:
  assumes "\<forall>s \<in> set shards. bytes_of s = [] \<or> length (bytes_of s) = n"
    and "\<exists>s \<in> set shards. bytes_of s \<noteq> []"
  shows "shardSize shards = n"
proof -
  let ?xs = "filter (\<lambda>s. s \<noteq> []) (map bytes_of shards)"
  have "?xs \<noteq> []" using assms(2) by (auto simp: filter_empty_conv)
  then obtain x rest where xs: "?xs = x # rest" by (cases ?xs) auto
  then have "x \<in> set ?xs" by simp
  then have "x \<noteq> []" "x \<in> bytes_of ` set shards" by auto
  then have "length x = n" using assms(1) by auto
  then show ?thesis by (simp add: shardSize_def xs)
qed

lemma checkShards_nilok:
  assumes "\<forall>s \<in> set shards. bytes_of s = [] \<or> length (bytes_of s) = n"
    and "\<exists>s \<in> set shards. bytes_of s \<noteq> []"
  shows "checkShards shards True = None"
proof -
  have sz: "shardSize shards = n" using assms by (rule shardSize_some)
  obtain s where "s \<in> set shards" "bytes_of s \<noteq> []" using assms(2) by blast
  then have "0 < n" using assms(1) by force
  then show ?thesis using assms(1) by (auto simp: checkShards_def sz)
qed

lemma checkShards_strict:
  assumes "\<forall>s \<in> set shards. length (bytes_of s) = n" "0 < n" "shards \<noteq> []"
  shows "checkShards shards False = None"
proof -
  have "shardSize shards = n"
  proof (rule shardSize_some)
    show "\<forall>s \<in> set shards. bytes_of s = [] \<or> length (bytes_of s) = n" using assms(1) by simp
    obtain s where "s \<in> set shards" using assms(3) by (cases shards) auto
    then show "\<exists>s \<in> set shards. bytes_of s \<noteq> []" using assms(1,2) by force
  qed
  then show ?thesis using assms(1,2) by (auto simp: checkShards_def)
qed

lemma decodes_Invert:
  assumes "V \<in> set valid_sets"
  shows "\<exists>dec. Invert (map (\<lambda>i. rs_matrix ! i) V) = Some dec"
proof -
  have "decodes rs_matrix V" using decodes_all assms by (simp add: list_all_iff)
  then show ?thesis by (cases "Invert (map (\<lambda>i. rs_matrix ! i) V)") auto
qed

lemma rs_Reconstruct_codeword:
  assumes d: "length data = 4" "\<forall>d \<in> set data. length d = n" and n: "0 < n"
    and l: "length slots = 6"
    and s: "\<forall>i<6. slots ! i = None \<or> slots ! i = Some (codeword data n ! i)"
    and e: "4 \<le> length (filter (\<lambda>i. slots ! i \<noteq> None) [0..<6])"
  shows "rs_Reconstruct 4 6 rs_matrix slots = Inr (map Some (codeword data n))"
proof -
  let ?cw = "codeword data n"
  let ?P = "\<lambda>i. slots ! i \<noteq> None"
  have len: "length (?cw ! i) = n" if "i < 6" for i
    using codeword_row_length[OF d that] .
  have b: "bytes_of (slots ! i) \<noteq> [] \<longleftrightarrow> ?P i" if "i < 6" for i
    using s[rule_format, OF that] len[OF that] n by (auto simp: bytes_of_def)
  have bo: "bytes_of (slots ! i) = ?cw ! i" if "i < 6" "?P i" for i
    using s[rule_format, OF that(1)] that(2) by (auto simp: bytes_of_def)
  have present: "filter (\<lambda>i. bytes_of (slots ! i) \<noteq> []) [0..<6] = filter ?P [0..<6]"
    by (rule filter_cong[OF refl]) (simp add: b)
  have all: "\<forall>s \<in> set slots. bytes_of s = [] \<or> length (bytes_of s) = n"
  proof
    fix x assume "x \<in> set slots"
    then obtain i where i: "i < 6" "x = slots ! i" using l by (auto simp: in_set_conv_nth)
    show "bytes_of x = [] \<or> length (bytes_of x) = n"
      using s[rule_format, OF i(1)] len[OF i(1)] i(2) by (auto simp: bytes_of_def)
  qed
  have "filter ?P [0..<6] \<noteq> []" using e by auto
  then obtain j where j: "j < 6" "?P j" by (auto simp: filter_empty_conv)
  then have ex: "\<exists>s \<in> set slots. bytes_of s \<noteq> []"
    using b[OF j(1)] l by (intro bexI[of _ "slots ! j"]) auto
  have sz: "shardSize slots = n" using all ex by (rule shardSize_some)
  have chk: "checkShards slots True = None" using all ex by (rule checkShards_nilok)
  show ?thesis
  proof (cases "length (filter ?P [0..<6]) = 6")
    case True
    have allp: "?P i" if "i < 6" for i
    proof (rule ccontr)
      assume "\<not> ?P i"
      then have "length (filter ?P [0..<6]) < length [0..<6]"
        using that by (intro length_filter_less[of i]) auto
      then show False using True by simp
    qed
    have "slots = map Some ?cw"
    proof (rule nth_equalityI)
      show "length slots = length (map Some ?cw)"
        using l codeword_length[OF d(1), of n] by simp
    next
      fix i assume "i < length slots"
      then have i: "i < 6" using l by simp
      have "slots ! i = Some (?cw ! i)"
        using s[rule_format, OF i] allp[OF i] by blast
      then show "slots ! i = map Some ?cw ! i"
        using i codeword_length[OF d(1), of n] by simp
    qed
    then show ?thesis
      using True l chk present by (simp add: rs_Reconstruct_def)
  next
    case False
    let ?V = "take 4 (filter ?P [0..<6])"
    have V: "?V \<in> set valid_sets" using e by (rule take4_valid)
    obtain dec where inv: "Invert (map (\<lambda>i. rs_matrix ! i) ?V) = Some dec"
      using decodes_Invert[OF V] by blast
    have Vp: "v < 6 \<and> ?P v" if "v \<in> set ?V" for v
      using in_set_takeD[OF that] by auto
    have sub: "map (\<lambda>i. bytes_of (slots ! i)) ?V = map (\<lambda>v. ?cw ! v) ?V"
      by (rule map_cong[OF refl]) (use Vp bo in blast)
    let ?rec = "map (\<lambda>i. if bytes_of (slots ! i) = []
                 then hd (codeSomeShards [dec ! i] (map (\<lambda>v. ?cw ! v) ?V) n)
                 else bytes_of (slots ! i)) [0..<4]"
    have rec: "?rec = data"
    proof (rule nth_equalityI)
      show "length ?rec = length data" using d(1) by simp
    next
      fix i assume "i < length ?rec"
      then have i: "i < 4" by simp
      then have i6: "i < 6" by simp
      show "?rec ! i = data ! i"
      proof (cases "bytes_of (slots ! i) = []")
        case True
        then show ?thesis using i recover[OF d V inv i] by simp
      next
        case False
        then have "?P i" using b[OF i6] by simp
        then show ?thesis using False i bo[OF i6] codeword_data[OF d(1) i, of n] by simp
      qed
    qed
    let ?out = "map (\<lambda>i. if bytes_of (slots ! i) \<noteq> [] then slots ! i
                 else if i < 4 then Some (data ! i)
                 else Some (hd (codeSomeShards [rs_matrix ! i] data n))) [0..<6]"
    have out: "?out = map Some ?cw"
    proof (rule nth_equalityI)
      show "length ?out = length (map Some ?cw)" using codeword_length[OF d(1), of n] by simp
    next
      fix i assume "i < length ?out"
      then have i: "i < 6" by simp
      show "?out ! i = map Some ?cw ! i"
      proof (cases "bytes_of (slots ! i) \<noteq> []")
        case True
        then have "?P i" using b[OF i] by simp
        then show ?thesis
          using True i s[rule_format, OF i] codeword_length[OF d(1), of n] by auto
      next
        case miss: False
        show ?thesis
        proof (cases "i < 4")
          case True
          then show ?thesis
            using miss i codeword_data[OF d(1) True, of n] codeword_length[OF d(1), of n] by simp
        next
          case False
          then have "?cw ! i = hd (codeSomeShards [rs_matrix ! i] data n)"
            using i codeword_parity[OF d(1), of i n] by (simp add: codeSomeShards_single)
          then show ?thesis
            using miss i False codeword_length[OF d(1), of n] by simp
        qed
      qed
    qed
    have lp: "\<not> length (filter ?P [0..<6]) < 4" using e by simp
    have "rs_Reconstruct 4 6 rs_matrix slots = Inr ?out"
      unfolding rs_Reconstruct_def Let_def
      by (simp only: l chk present sz sub inv rec False lp if_False refl
          option.case simp_thms)
    then show ?thesis using out by simp
  qed
qed

lemma perShard_pos: "buf \<noteq> [] \<Longrightarrow> 0 < perShard buf"
  by (cases buf) (simp_all add: perShard_def)

lemma perShard_ge: "length buf \<le> 4 * perShard buf"
proof -
  have "4 * ((length buf + 3) div 4) + (length buf + 3) mod 4 = length buf + 3"
    by simp
  moreover have "(length buf + 3) mod 4 < 4" by simp
  ultimately show ?thesis unfolding perShard_def by simp
qed

lemma padded_length: "length (padded buf) = 6 * perShard buf"
  using perShard_ge[of buf] by (simp add: padded_def)

lemma slice_length:
  "i < 6 \<Longrightarrow> length (take (perShard buf) (drop (i * perShard buf) (padded buf))) = perShard buf"
proof -
  assume "i < 6"
  then have "Suc i \<le> 6" by simp
  then have "Suc i * perShard buf \<le> 6 * perShard buf" by (rule mult_le_mono1)
  then have "i * perShard buf + perShard buf \<le> 6 * perShard buf" by simp
  then have "perShard buf \<le> 6 * perShard buf - i * perShard buf" by linarith
  then show ?thesis by (simp add: padded_length min_def)
qed

lemma dataOf_props:
  "length (dataOf buf) = 4" "\<forall>d \<in> set (dataOf buf). length d = perShard buf"
  using slice_length[of _ buf] by (auto simp: dataOf_def)

lemma dataOf_concat: "take (length buf) (concat (dataOf buf)) = buf"
proof -
  have "concat (dataOf buf) = take (4 * perShard buf) (padded buf)"
    unfolding dataOf_def by (rule concat_takes)
  then have "take (length buf) (concat (dataOf buf)) = take (length buf) (padded buf)"
    using perShard_ge[of buf] by (simp add: min_def)
  then show ?thesis by (simp add: padded_def)
qed

lemma map_bytes_of_Some: "map bytes_of (map Some xs) = xs"
  by (induction xs) (simp_all add: bytes_of_def)

lemma rs_Split_buf:
  "buf \<noteq> [] \<Longrightarrow>
     rs_Split 4 6 buf
       = Inr (map (\<lambda>i. Some (take (perShard buf) (drop (i * perShard buf) (padded buf)))) [0..<6])"
  by (simp add: rs_Split_def perShard_def padded_def Let_def)

lemma rs_Encode_split:
  assumes "buf \<noteq> []"
  shows "rs_Encode 4 6 rs_matrix
           (map (\<lambda>i. Some (take (perShard buf) (drop (i * perShard buf) (padded buf)))) [0..<6])
         = Inr (map Some (codeword (dataOf buf) (perShard buf)))"
proof -
  let ?n = "perShard buf"
  let ?f = "\<lambda>i. Some (take ?n (drop (i * ?n) (padded buf)))"
  let ?split = "map ?f [0..<6]"
  have all: "\<forall>s \<in> set ?split. length (bytes_of s) = ?n"
    using slice_length[of _ buf] by (auto simp: bytes_of_def)
  have chk: "checkShards ?split False = None"
    using all perShard_pos[OF assms] by (rule checkShards_strict) simp
  have sz: "shardSize ?split = ?n"
  proof (rule shardSize_some)
    show "\<forall>s \<in> set ?split. bytes_of s = [] \<or> length (bytes_of s) = ?n" using all by blast
    have "?f 0 \<in> set ?split" by (simp add: upt_6)
    moreover have "bytes_of (?f 0) \<noteq> []"
      using slice_length[of 0 buf] perShard_pos[OF assms] by (auto simp: bytes_of_def)
    ultimately show "\<exists>s \<in> set ?split. bytes_of s \<noteq> []" by blast
  qed
  have t: "take 4 ?split = map Some (dataOf buf)"
    by (simp add: take_map dataOf_def)
  show ?thesis
    unfolding rs_Encode_def
    by (simp add: chk sz t map_bytes_of_Some codeword_def del: upt_Suc map_map)
qed

lemma rs_Verify_codeword:
  assumes "length data = 4" "\<forall>d \<in> set data. length d = n" "0 < n"
  shows "rs_Verify 4 6 rs_matrix (map Some (codeword data n)) = Inr True"
proof -
  let ?cw = "codeword data n"
  have l: "length ?cw = 6" using assms(1) by (rule codeword_length)
  have all: "\<forall>s \<in> set (map Some ?cw). length (bytes_of s) = n"
  proof
    fix s assume "s \<in> set (map Some ?cw)"
    then obtain i where "i < 6" "s = Some (?cw ! i)" using l by (auto simp: in_set_conv_nth)
    then show "length (bytes_of s) = n"
      using codeword_row_length[OF assms(1,2), of i] by (simp add: bytes_of_def)
  qed
  have chk: "checkShards (map Some ?cw) False = None"
    using all assms(3) by (rule checkShards_strict) (use l in auto)
  have t: "take 4 ?cw = data" "drop 4 ?cw = codeSomeShards (drop 4 rs_matrix) data n"
    using assms(1) by (simp_all add: codeword_def)
  have z: "length (bytes_of (Some (?cw ! 0))) = n"
    using codeword_row_length[OF assms(1,2), of 0] by (simp add: bytes_of_def)
  show ?thesis
    unfolding rs_Verify_def
    using l by (simp add: chk z take_map[symmetric] drop_map[symmetric] t map_bytes_of_Some
        del: map_map)
qed

lemma join_size_ok:
  "outSize \<le> sz + int (length (concat ds)) \<Longrightarrow>
     \<exists>r. join_size (map Some ds) sz outSize = Inr r \<and> outSize \<le> r"
  by (induction ds arbitrary: sz) (auto simp: algebra_simps)

lemma rs_Join_codeword:
  assumes "length data = 4" "int k \<le> int (length (concat data))"
  shows "rs_Join 4 (map Some (codeword data n)) (int k) = Inr (take k (concat data))"
proof -
  let ?cw = "codeword data n"
  have l: "length ?cw = 6" using assms(1) by (rule codeword_length)
  have t: "take 4 (map Some ?cw) = map Some data"
    using assms(1) by (simp add: take_map codeword_def)
  obtain r where r: "join_size (map Some data) 0 (int k) = Inr r" "int k \<le> r"
    using join_size_ok[of "int k" 0 data] assms(2) by auto
  show ?thesis
    unfolding rs_Join_def using l r by (simp add: t map_bytes_of_Some del: map_map)
qed

lemma fill_loop_distinct:
  assumes "distinct (map ShardIndex sel)"
    and "\<forall>s \<in> set sel. 0 \<le> ShardIndex s \<and> ShardIndex s < int TotalShards"
    and "length init = TotalShards"
    and "\<forall>s \<in> set sel. init ! nat (ShardIndex s) = None"
  shows "\<exists>filled. fill_loop sel init = Inr filled \<and> length filled = TotalShards
          \<and> (\<forall>i<TotalShards. filled ! i =
                (case find (\<lambda>s. ShardIndex s = int i) sel of
                   Some s \<Rightarrow> Data_shard s
                 | None \<Rightarrow> init ! i))"
  using assms
proof (induction sel arbitrary: init)
  case Nil
  then show ?case by simp
next
  case (Cons x sel)
  let ?n = "nat (ShardIndex x)"
  let ?init = "init[?n := Data_shard x]"
  have x: "0 \<le> ShardIndex x" "ShardIndex x < int TotalShards" "init ! ?n = None"
    using Cons.prems(2,4) by simp_all
  have n: "?n < length init" using x Cons.prems(3) by simp
  have step: "fill_loop (x # sel) init = fill_loop sel ?init"
    using x by simp
  have other: "ShardIndex s \<noteq> ShardIndex x" if "s \<in> set sel" for s
  proof
    assume e: "ShardIndex s = ShardIndex x"
    have "ShardIndex s \<in> ShardIndex ` set sel" using that by (rule imageI)
    then show False using Cons.prems(1) unfolding e by simp
  qed
  have free: "\<forall>s \<in> set sel. ?init ! nat (ShardIndex s) = None"
  proof
    fix s assume s: "s \<in> set sel"
    have "0 \<le> ShardIndex s" using Cons.prems(2) s by simp
    then have "nat (ShardIndex s) \<noteq> ?n" using other[OF s] x(1) by simp
    then show "?init ! nat (ShardIndex s) = None" using Cons.prems(4) s by simp
  qed
  have "distinct (map ShardIndex sel)" using Cons.prems(1) by simp
  moreover have "\<forall>s \<in> set sel. 0 \<le> ShardIndex s \<and> ShardIndex s < int TotalShards"
    using Cons.prems(2) by simp
  moreover have "length ?init = TotalShards" using Cons.prems(3) by simp
  ultimately obtain filled where f: "fill_loop sel ?init = Inr filled"
      "length filled = TotalShards"
      "\<forall>i<TotalShards. filled ! i =
          (case find (\<lambda>s. ShardIndex s = int i) sel of
             Some s \<Rightarrow> Data_shard s
           | None \<Rightarrow> ?init ! i)"
    using Cons.IH[OF _ _ _ free] by blast
  have "filled ! i =
          (case find (\<lambda>s. ShardIndex s = int i) (x # sel) of
             Some s \<Rightarrow> Data_shard s
           | None \<Rightarrow> init ! i)" if i: "i < TotalShards" for i
  proof (cases "ShardIndex x = int i")
    case True
    then have ni: "?n = i" by simp
    have "find (\<lambda>s. ShardIndex s = int i) sel = None"
      using other True by (auto simp: find_None_iff)
    then have "filled ! i = ?init ! i" using f(3) i by simp
    then show ?thesis using True ni n by simp
  next
    case False
    then have "?n \<noteq> i" using x(1) by auto
    then have "?init ! i = init ! i" by simp
    then show ?thesis using f(3) i False by (simp split: option.split)
  qed
  then show ?case using step f(1,2) by simp
qed

lemma ShardChunk_rs:
  assumes "ShardChunk Sum256 rs_New chunk buf = Inr produced"
  shows "buf \<noteq> []"
    and "produced = map (\<lambda>i.
           \<lparr>ChunkIndex = Index chunk, ShardIndex = int i,
            Data_shard = Some (codeword (dataOf buf) (perShard buf) ! i),
            Hash_shard = EncodeToString (Sum256 (codeword (dataOf buf) (perShard buf) ! i)),
            Size_shard = int (length (codeword (dataOf buf) (perShard buf) ! i))\<rparr>) [0..<6]"
proof -
  show ne: "buf \<noteq> []"
  proof
    assume "buf = []"
    then have "rs_Split 4 6 buf = Inl ErrShortData" by (simp add: rs_Split_def)
    then show False
      using assms
      by (simp add: ShardChunk_def DataShards_def ParityShards_def rs_New_4_2 split: if_splits)
  qed
  have l: "length (codeword (dataOf buf) (perShard buf)) = 6"
    using dataOf_props(1) by (rule codeword_length)
  have "ShardChunk Sum256 rs_New chunk buf =
      Inr (map (\<lambda>i.
           \<lparr>ChunkIndex = Index chunk, ShardIndex = int i,
            Data_shard = map Some (codeword (dataOf buf) (perShard buf)) ! i,
            Hash_shard = EncodeToString (Sum256 (bytes_of (map Some (codeword (dataOf buf) (perShard buf)) ! i))),
            Size_shard = int (length (bytes_of (map Some (codeword (dataOf buf) (perShard buf)) ! i)))\<rparr>)
        [0..<6])"
    using assms l
    by (simp add: ShardChunk_def DataShards_def ParityShards_def TotalShards_def rs_New_4_2
        rs_Split_buf[OF ne] rs_Encode_split[OF ne] split: if_splits del: upt_Suc)
  also have "\<dots> = Inr (map (\<lambda>i.
           \<lparr>ChunkIndex = Index chunk, ShardIndex = int i,
            Data_shard = Some (codeword (dataOf buf) (perShard buf) ! i),
            Hash_shard = EncodeToString (Sum256 (codeword (dataOf buf) (perShard buf) ! i)),
            Size_shard = int (length (codeword (dataOf buf) (perShard buf) ! i))\<rparr>) [0..<6])"
    using l by (simp add: bytes_of_def del: upt_Suc)
  finally show "produced = map (\<lambda>i.
           \<lparr>ChunkIndex = Index chunk, ShardIndex = int i,
            Data_shard = Some (codeword (dataOf buf) (perShard buf) ! i),
            Hash_shard = EncodeToString (Sum256 (codeword (dataOf buf) (perShard buf) ! i)),
            Size_shard = int (length (codeword (dataOf buf) (perShard buf) ! i))\<rparr>) [0..<6]"
    using assms by simp
qed


section \<open>Reconstruction from any four shards\<close>

text \<open>
  Claim C1. Let ShardChunk, with the encoder of four data and two parity shards, have
  produced the shards of a chunk from a ciphertext. Then the ciphertext has the size of
  the chunk, there are six shards, and ReconstructChunk on any list of four or more of
  these shards, each at most once and in any order, data and parity shards alike, with
  the length of the ciphertext as the size, returns the ciphertext, whatever the digest.
\<close>

theorem ReconstructChunk_ShardChunk:
  assumes "ShardChunk Sum256 rs_New chunk encryptedData = Inr produced"
    and "set sel \<subseteq> set produced" and "distinct sel" and "4 \<le> length sel"
  shows "int (length encryptedData) = Size chunk \<and> length produced = 6
       \<and> ReconstructChunk Sum256 rs_New sel (int (length encryptedData)) = Inr encryptedData"
proof -
  let ?n = "perShard encryptedData"
  let ?data = "dataOf encryptedData"
  let ?cw = "codeword ?data ?n"
  let ?enc = "\<lparr>Split = rs_Split 4 6, Encode = rs_Encode 4 6 rs_matrix,
          Reconstruct = rs_Reconstruct 4 6 rs_matrix, Verify = rs_Verify 4 6 rs_matrix,
          Join = rs_Join 4\<rparr>"
  note R = ShardChunk_rs[OF assms(1)]
  note P = ShardChunk_shards[OF assms(1)]
  have sizeok: "int (length encryptedData) = Size chunk"
    using assms(1) by (simp add: ShardChunk_def split: if_splits)
  have lp: "length produced = 6" using P(1) by (simp add: TotalShards_6)
  have n: "0 < ?n" using R(1) by (rule perShard_pos)
  have d: "length ?data = 4" "\<forall>d \<in> set ?data. length d = ?n"
    by (rule dataOf_props)+
  have pi: "ShardIndex (produced ! i) = int i" "Data_shard (produced ! i) = Some (?cw ! i)"
    if "i < 6" for i
    using that by (simp_all add: R(2) del: upt_Suc)
  have mem: "\<exists>i<6. s = produced ! i" if "s \<in> set sel" for s
  proof -
    have "s \<in> set produced" using that assms(2) by blast
    then obtain i where "i < length produced" "produced ! i = s"
      unfolding in_set_conv_nth by blast
    then show ?thesis using lp by auto
  qed
  have good: "ChunkIndex s = Index chunk \<and> VerifyShard Sum256 (Data_shard s) (Hash_shard s)"
    if sm: "s \<in> set sel" for s
  proof -
    obtain i where "i < 6" "s = produced ! i" using mem[OF sm] by blast
    then show ?thesis using P(2)[of i] P(4)[of i] by (simp add: VerifyShard_def TotalShards_6)
  qed
  have pass: "\<forall>j<length sel. passes Sum256 sel j"
  proof (intro allI impI)
    fix j assume "j < length sel"
    then have "sel ! j \<in> set sel" by simp
    moreover have "sel \<noteq> []" using assms(4) by auto
    then have "0 < length sel" by simp
    then have "sel ! 0 \<in> set sel" by (rule nth_mem)
    ultimately have "sel ! j \<in> set sel" "sel ! 0 \<in> set sel" by simp_all
    then show "passes Sum256 sel j" using good by (simp add: passes_def)
  qed
  have new: "rs_New DataShards ParityShards = Inr ?enc"
    by (simp add: DataShards_def ParityShards_def rs_New_4_2)
  have size: "0 < int (length encryptedData)" using R(1) by simp
  have inj: "inj_on ShardIndex (set sel)"
  proof (rule inj_onI)
    fix a b assume "a \<in> set sel" "b \<in> set sel" "ShardIndex a = ShardIndex b"
    then show "a = b" using mem[of a] mem[of b] pi(1) by force
  qed
  have dist: "distinct (map ShardIndex sel)"
    using assms(3) inj by (simp add: distinct_map)
  have range: "\<forall>s \<in> set sel. 0 \<le> ShardIndex s \<and> ShardIndex s < int TotalShards"
    using mem pi(1) by (force simp: TotalShards_6)
  obtain slots where f: "fill_loop sel (replicate TotalShards None) = Inr slots"
      "length slots = TotalShards"
      "\<forall>i<TotalShards. slots ! i =
          (case find (\<lambda>s. ShardIndex s = int i) sel of
             Some s \<Rightarrow> Data_shard s
           | None \<Rightarrow> replicate TotalShards None ! i)"
    using fill_loop_distinct[OF dist range, of "replicate TotalShards None"] range
    by (auto simp: TotalShards_6 nat_less_iff)
  have slot: "slots ! i = (if produced ! i \<in> set sel then Some (?cw ! i) else None)"
    if i: "i < 6" for i
  proof (cases "find (\<lambda>s. ShardIndex s = int i) sel")
    case None
    then have "produced ! i \<notin> set sel"
      using pi(1)[OF i] by (auto simp: find_None_iff)
    then show ?thesis using f(3) i None by (simp add: TotalShards_6)
  next
    case (Some s)
    then have s: "s \<in> set sel" "ShardIndex s = int i"
      by (auto simp: find_Some_iff)
    then obtain j where j: "j < 6" "s = produced ! j" using mem by blast
    then have "j = i" using s(2) pi(1)[OF j(1)] by simp
    then have "produced ! i \<in> set sel" "Data_shard s = Some (?cw ! i)"
      using s(1) j pi(2)[OF i] by simp_all
    then show ?thesis using f(3) i Some by (simp add: TotalShards_6)
  qed
  have s6: "\<forall>i<6. slots ! i = None \<or> slots ! i = Some (?cw ! i)"
    using slot by simp
  have count: "4 \<le> length (filter (\<lambda>i. slots ! i \<noteq> None) [0..<6])"
  proof -
    let ?I = "{i. i < 6 \<and> produced ! i \<in> set sel}"
    have "length (filter (\<lambda>i. slots ! i \<noteq> None) [0..<6])
        = card {i. i < length [0..<6] \<and> slots ! ([0..<6] ! i) \<noteq> None}"
      by (rule length_filter_conv_card)
    also have "{i. i < length [0..<6] \<and> slots ! ([0..<6] ! i) \<noteq> None} = ?I"
      using slot by (auto split: if_splits)
    finally have c: "length (filter (\<lambda>i. slots ! i \<noteq> None) [0..<6]) = card ?I" .
    have "set sel = (\<lambda>i. produced ! i) ` ?I"
      using mem by auto
    then have "card (set sel) = card ((\<lambda>i. produced ! i) ` ?I)"
      by (rule arg_cong[where f = card])
    moreover have "finite ?I" by simp
    then have "card ((\<lambda>i. produced ! i) ` ?I) \<le> card ?I"
      by (rule card_image_le)
    ultimately have "card (set sel) \<le> card ?I" by simp
    moreover have "card (set sel) = length sel" using assms(3) by (rule distinct_card)
    ultimately show ?thesis using c assms(4) by simp
  qed
  have rec: "rs_Reconstruct 4 6 rs_matrix slots = Inr (map Some ?cw)"
    using f(2) by (intro rs_Reconstruct_codeword[OF d n _ s6 count]) (simp add: TotalShards_6)
  have ver: "rs_Verify 4 6 rs_matrix (map Some ?cw) = Inr True"
    by (rule rs_Verify_codeword[OF d n])
  have "int (length encryptedData) \<le> int (length (concat ?data))"
  proof -
    have "length (take (length encryptedData) (concat ?data)) = length encryptedData"
      by (simp add: dataOf_concat)
    then show ?thesis by simp
  qed
  then have join: "rs_Join 4 (map Some ?cw) (int (length encryptedData)) = Inr encryptedData"
    using rs_Join_codeword[OF d(1), of "length encryptedData" ?n] by (simp add: dataOf_concat)
  have "ReconstructChunk Sum256 rs_New sel (int (length encryptedData)) = Inr encryptedData"
    unfolding ReconstructChunk_fill[of sel "int (length encryptedData)" Sum256 rs_New ?enc,
        OF assms(4) size pass new]
    by (simp add: f(1) rec ver join)
  then show ?thesis using sizeok lp by simp
qed

theorem ReconstructChunk_ShardChunk_witness:
  "ReconstructChunk (\<lambda>d. d) rs_New
     [example_shards ! 5, example_shards ! 0, example_shards ! 4, example_shards ! 2] 5
   = Inr [1, 2, 3, 4, 5]"
  using ReconstructChunk_ShardChunk[OF ShardChunk_example,
      of "[example_shards ! 5, example_shards ! 0, example_shards ! 4, example_shards ! 2]"]
  by (simp add: example_shards_def)



end
